(* ===== verification/Observer_Prelude.thy ===== *)
theory Observer_Prelude
  imports Main
begin

text \<open>
  Shared vocabulary of the observer development: the time and duration types
  of the model, the named collection of rewrite rules the component proofs
  share, and the generic list lemmas they need (taking the entries of one tag
  out of a tagged list, removing one element of a list by index).
\<close>

section \<open>Time\<close>

text \<open>
  Go's \<open>time.Time\<close> and \<open>time.Duration\<close> are read as nanoseconds on one
  monotone clock. Durations may be negative in Go (\<open>time.After\<close> of a negative
  duration fires at once), so both are integers.
\<close>

type_synonym instant = int
type_synonym duration = int

named_theorems observer_simps \<open>rewrite rules of the observer model\<close>

section \<open>Tagged lists\<close>

text \<open>
  The accumulation buffer merges results tagged with a flag (oversized or
  not); \<open>tagged ov es\<close> is the sequence of results carried with flag \<open>ov\<close>.
\<close>

definition tagged :: "bool \<Rightarrow> ('r \<times> bool) list \<Rightarrow> 'r list" where
  "tagged ov es = map fst (filter (\<lambda>e. snd e = ov) es)"

lemma tagged_Nil [simp, observer_simps]: "tagged ov [] = []"
  by (simp add: tagged_def)

lemma tagged_Cons [simp, observer_simps]:
  "tagged ov (e # es) = (if snd e = ov then fst e # tagged ov es else tagged ov es)"
  by (simp add: tagged_def)

lemma tagged_append [simp, observer_simps]:
  "tagged ov (es @ fs) = tagged ov es @ tagged ov fs"
  by (simp add: tagged_def)

lemma tagged_concat: "tagged ov (concat ess) = concat (map (tagged ov) ess)"
  by (induction ess) simp_all

lemma length_tagged_sum:
  "length (tagged True es) + length (tagged False es) = length es"
  by (induction es) auto

section \<open>Removing an element by index\<close>

definition remove_nth :: "nat \<Rightarrow> 'a list \<Rightarrow> 'a list" where
  "remove_nth i xs = take i xs @ drop (Suc i) xs"

lemma length_remove_nth [simp]:
  "i < length xs \<Longrightarrow> length (remove_nth i xs) = length xs - 1"
  by (simp add: remove_nth_def)

lemma remove_nth_singleton [simp]: "remove_nth 0 [x] = []"
  by (simp add: remove_nth_def)

lemma set_remove_nth_subset: "set (remove_nth i xs) \<subseteq> set xs"
  by (auto simp: remove_nth_def dest: in_set_takeD in_set_dropD)

text \<open>How many elements satisfy a predicate after one of them is replaced or
  removed.\<close>

lemma list_update_nth_same: "xs ! i = x \<Longrightarrow> xs[i := x] = xs"
  by auto

lemma length_filter_update:
  "i < length xs \<Longrightarrow>
   length (filter P (xs[i := v])) + (if P (xs ! i) then 1 else 0) =
   length (filter P xs) + (if P v then 1 else 0)"
  by (subst (2) id_take_nth_drop [of i xs]) (simp_all add: upd_conv_take_nth_drop)

lemma length_filter_update_same:
  "i < length xs \<Longrightarrow> P (xs ! i) = P v \<Longrightarrow> length (filter P (xs[i := v])) = length (filter P xs)"
  using length_filter_update [of i xs P v] by simp

lemma length_filter_mono_pred:
  "(\<And>x. P x \<Longrightarrow> Q x) \<Longrightarrow> length (filter P xs) \<le> length (filter Q xs)"
  by (induction xs) simp_all

lemma length_filter_remove_nth:
  "i < length xs \<Longrightarrow>
   length (filter P (remove_nth i xs)) + (if P (xs ! i) then 1 else 0) = length (filter P xs)"
  by (subst (2) id_take_nth_drop [of i xs]) (simp_all add: remove_nth_def)

lemma length_le_one_cases:
  assumes "length xs \<le> 1"
  obtains "xs = []" | x where "xs = [x]"
  using assms by (cases xs) auto

end
