(* ===== verification/Observer_Buffer.thy ===== *)
theory Observer_Buffer
  imports Observer_Prelude
begin

text \<open>
  The collaborators of the observer that live outside \<open>src/\<close>: the
  accumulation buffer \<open>models.ObserverBuffer\<close>, the stats sink
  \<open>statsreceiveriface.StatsReceiver\<close> and the logger. They are modelled from
  the specification: the buffer is the sequence of results merged into it,
  each with its oversized flag (every aggregate the real buffer keeps is a
  function of that sequence); the sink records the buffers it is sent; the
  logger records its lines. \<open>report\<close> is the flush the loop performs in two
  places of \<open>observer.go\<close>.
\<close>

section \<open>The accumulation buffer\<close>

type_synonym 'r ObserverBuffer = "('r \<times> bool) list"

definition ObserverBuffer_empty :: "'r ObserverBuffer" where
  "ObserverBuffer_empty = []"

definition ObserverBuffer_Append :: "'r ObserverBuffer \<Rightarrow> 'r \<Rightarrow> bool \<Rightarrow> 'r ObserverBuffer" where
  "ObserverBuffer_Append b r oversized = b @ [(r, oversized)]"

lemma tagged_ObserverBuffer_Append [simp, observer_simps]:
  "tagged ov (ObserverBuffer_Append b r oversized) =
     tagged ov b @ (if oversized = ov then [r] else [])"
  by (simp add: ObserverBuffer_Append_def)

lemma tagged_ObserverBuffer_empty [simp, observer_simps]:
  "tagged ov ObserverBuffer_empty = []"
  by (simp add: ObserverBuffer_empty_def)

section \<open>Log lines and the sink\<close>

text \<open>
  The log lines the observer writes, one constructor per call of \<open>o.log\<close>:
  the warning of a repeated \<open>Start\<close>, the warning on the exit signal, the
  summary \<open>buffer.String()\<close> written at each flush (kept as the buffer it
  renders), and the debug line of an idle timeout.
\<close>

datatype 'r log_entry =
    WarnAlreadyRunning
  | WarnExitSignal
  | InfoBuffer "'r ObserverBuffer"
  | DebugTimedOut duration

text \<open>What the observer leaves outside itself: its log and the buffers the sink received.\<close>

record 'r outputs =
  logs :: "'r log_entry list"
  sent :: "'r ObserverBuffer list"

definition no_outputs :: "'r outputs" where
  "no_outputs = \<lparr>logs = [], sent = []\<rparr>"

definition log_line :: "'r log_entry \<Rightarrow> 'r outputs \<Rightarrow> 'r outputs" where
  "log_line l out = out\<lparr>logs := logs out @ [l]\<rparr>"

definition StatsReceiver_Send :: "'r ObserverBuffer \<Rightarrow> 'r outputs \<Rightarrow> 'r outputs" where
  "StatsReceiver_Send b out = out\<lparr>sent := sent out @ [b]\<rparr>"

text \<open>
  \<open>o.log.Infof(buffer.String()); if o.statsClient != nil { o.statsClient.Send(&buffer) }\<close>:
  log the summary, then deliver the buffer when a sink is configured.
\<close>

definition report :: "bool \<Rightarrow> 'r ObserverBuffer \<Rightarrow> 'r outputs \<Rightarrow> 'r outputs" where
  "report statsClient b out =
     (let out' = log_line (InfoBuffer b) out
      in if statsClient then StatsReceiver_Send b out' else out')"

text \<open>The buffers flushed so far: the ones whose summary was logged.\<close>

fun flushed_of :: "'r log_entry list \<Rightarrow> 'r ObserverBuffer list" where
  "flushed_of [] = []"
| "flushed_of (InfoBuffer b # ls) = b # flushed_of ls"
| "flushed_of (_ # ls) = flushed_of ls"

abbreviation flushed :: "'r outputs \<Rightarrow> 'r ObserverBuffer list" where
  "flushed out \<equiv> flushed_of (logs out)"

lemma flushed_of_append [simp, observer_simps]:
  "flushed_of (ls @ ms) = flushed_of ls @ flushed_of ms"
  by (induction ls rule: flushed_of.induct) simp_all

lemma report_logs [simp, observer_simps]:
  "logs (report sc b out) = logs out @ [InfoBuffer b]"
  by (simp add: report_def log_line_def StatsReceiver_Send_def Let_def)

lemma report_sent [simp, observer_simps]:
  "sent (report sc b out) = (if sc then sent out @ [b] else sent out)"
  by (simp add: report_def log_line_def StatsReceiver_Send_def Let_def)

lemma log_line_logs [simp, observer_simps]: "logs (log_line l out) = logs out @ [l]"
  by (simp add: log_line_def)

lemma log_line_sent [simp, observer_simps]: "sent (log_line l out) = sent out"
  by (simp add: log_line_def)

lemma no_outputs_simps [simp, observer_simps]: "logs no_outputs = []" "sent no_outputs = []"
  by (simp_all add: no_outputs_def)

end
