(* ===== verification/Observer_State.thy ===== *)
theory Observer_State
  imports Observer_Buffer
begin

text \<open>
  The \<open>Observer\<close> struct of \<open>src/internal/observer/observer.go\<close>, its constructor
  \<open>New\<close>, the two bounded result channels and the producer entry points
  \<open>TargetWrite\<close> and \<open>TargetWriteOversized\<close>. A buffered Go channel of capacity
  \<open>c\<close> is the FIFO list of the values in it; a send on a full channel blocks,
  which is \<open>None\<close> here (no step of the sender), and a receive on an empty
  channel is not ready, again \<open>None\<close>. The unbuffered channels \<open>exitSignal\<close> and
  \<open>stopDone\<close> hold no values: they are the rendezvous steps of
  \<open>Observer_System\<close>. The logger field is the \<open>logs\<close> of \<open>outputs\<close>.
\<close>

section \<open>Buffered channels\<close>

definition chan_send :: "nat \<Rightarrow> 'a list \<Rightarrow> 'a \<Rightarrow> 'a list option" where
  "chan_send cap q x = (if length q < cap then Some (q @ [x]) else None)"

fun chan_recv :: "'a list \<Rightarrow> ('a \<times> 'a list) option" where
  "chan_recv [] = None"
| "chan_recv (x # q) = Some (x, q)"

lemma chan_send_Some_iff [observer_simps]:
  "chan_send cap q x = Some q' \<longleftrightarrow> length q < cap \<and> q' = q @ [x]"
  by (auto simp: chan_send_def)

lemma chan_send_blocks: "chan_send cap q x = None \<longleftrightarrow> cap \<le> length q"
  by (simp add: chan_send_def)

lemma chan_recv_Some_iff [observer_simps]:
  "chan_recv q = Some (x, q') \<longleftrightarrow> q = x # q'"
  by (cases q) auto

section \<open>The Observer struct\<close>

definition result_chan_capacity :: nat where
  "result_chan_capacity = 1000"

record 'r Observer =
  statsClient :: bool
  targetWriteChan :: "'r list"
  targetWriteOversizedChan :: "'r list"
  timeout :: duration
  reportInterval :: duration
  isRunning :: bool

text \<open>\<open>statsClient\<close> is \<open>o.statsClient != nil\<close>: the only use the code makes of it
  besides the call of \<open>Send\<close>, which \<open>report\<close> models.\<close>

definition New :: "bool \<Rightarrow> duration \<Rightarrow> duration \<Rightarrow> 'r Observer" where
  "New sc t ri =
     \<lparr>statsClient = sc, targetWriteChan = [], targetWriteOversizedChan = [],
      timeout = t, reportInterval = ri, isRunning = False\<rparr>"

section \<open>Producer entry points\<close>

definition TargetWrite :: "'r Observer \<Rightarrow> 'r \<Rightarrow> 'r Observer option" where
  "TargetWrite ob r =
     map_option (\<lambda>q. ob\<lparr>targetWriteChan := q\<rparr>)
       (chan_send result_chan_capacity (targetWriteChan ob) r)"

definition TargetWriteOversized :: "'r Observer \<Rightarrow> 'r \<Rightarrow> 'r Observer option" where
  "TargetWriteOversized ob r =
     map_option (\<lambda>q. ob\<lparr>targetWriteOversizedChan := q\<rparr>)
       (chan_send result_chan_capacity (targetWriteOversizedChan ob) r)"

text \<open>Both channels stay within their capacity.\<close>

definition chans_bounded :: "'r Observer \<Rightarrow> bool" where
  "chans_bounded ob \<longleftrightarrow>
     length (targetWriteChan ob) \<le> result_chan_capacity \<and>
     length (targetWriteOversizedChan ob) \<le> result_chan_capacity"

lemma New_chans_bounded: "chans_bounded (New sc t ri)"
  by (simp add: chans_bounded_def New_def)

lemma TargetWrite_Some_iff [observer_simps]:
  "TargetWrite ob r = Some ob' \<longleftrightarrow>
     length (targetWriteChan ob) < result_chan_capacity \<and>
     ob' = ob\<lparr>targetWriteChan := targetWriteChan ob @ [r]\<rparr>"
  by (auto simp: TargetWrite_def chan_send_def)

lemma TargetWriteOversized_Some_iff [observer_simps]:
  "TargetWriteOversized ob r = Some ob' \<longleftrightarrow>
     length (targetWriteOversizedChan ob) < result_chan_capacity \<and>
     ob' = ob\<lparr>targetWriteOversizedChan := targetWriteOversizedChan ob @ [r]\<rparr>"
  by (auto simp: TargetWriteOversized_def chan_send_def)

end
