(* ===== verification/Observer_Loop.thy ===== *)
theory Observer_Loop
  imports Observer_State
begin

text \<open>
  The goroutine launched by \<open>Start\<close> (\<open>observer.go\<close>, lines 56--93): its local
  state (\<open>reportTime\<close>, \<open>buffer\<close>, and the timer of the pending
  \<open>time.After(o.timeout)\<close>), the four cases of its \<open>select\<close>, the deadline check
  that follows every case but the exit, and one whole iteration of the
  \<open>for\<close> loop as a function. The iteration reads the clock once: the
  \<open>select\<close> case and the deadline check run at the same instant \<open>now\<close>.
  The lemmas show that an iteration loses and duplicates no result (each result
  is in exactly one of: a flushed buffer, the current buffer, its channel, in
  FIFO order), that the deadline never moves backwards and is never left
  overdue, that the outputs are append-only, and that in a quiet period the
  idle wakeups flush at the first wakeup after the deadline, and not before.
\<close>

section \<open>Loop state and select cases\<close>

record 'r loop_state =
  reportTime :: instant
  buffer :: "'r ObserverBuffer"
  timer :: instant

datatype select_case = ExitSignal | RecvTargetWrite | RecvTargetWriteOversized | TimeAfter

datatype 'r iteration = Continue "'r loop_state" | Break

text \<open>Entry of the goroutine: \<open>reportTime := time.Now().Add(o.reportInterval)\<close>,
  an empty buffer, and the timer of the first \<open>select\<close>.\<close>

definition loop_start :: "'r Observer \<Rightarrow> instant \<Rightarrow> 'r loop_state" where
  "loop_start ob now =
     \<lparr>reportTime = now + reportInterval ob, buffer = ObserverBuffer_empty,
      timer = now + timeout ob\<rparr>"

text \<open>\<open>if time.Now().After(reportTime) { ...flush...; reportTime = time.Now().Add(o.reportInterval);
  buffer = models.ObserverBuffer{} }\<close>\<close>

definition check_report ::
  "'r Observer \<Rightarrow> instant \<Rightarrow> 'r loop_state \<Rightarrow> 'r outputs \<Rightarrow> 'r loop_state \<times> 'r outputs" where
  "check_report ob now ls out =
     (if reportTime ls < now
      then (ls\<lparr>reportTime := now + reportInterval ob, buffer := ObserverBuffer_empty\<rparr>,
            report (statsClient ob) (buffer ls) out)
      else (ls, out))"

text \<open>After cases 2--4: the deadline check, then the next \<open>select\<close> with a fresh timer.\<close>

definition next_select ::
  "'r Observer \<Rightarrow> instant \<Rightarrow> 'r loop_state \<Rightarrow> 'r outputs \<Rightarrow> 'r iteration \<times> 'r outputs" where
  "next_select ob now ls out =
     (case check_report ob now ls out of
        (ls', out') \<Rightarrow> (Continue (ls'\<lparr>timer := now + timeout ob\<rparr>), out'))"

text \<open>
  One iteration of \<open>ObserverLoop\<close>, for the \<open>select\<close> case the scheduler picks;
  \<open>None\<close> when that case is not ready (its channel is empty, its timer has not
  fired). The exit case is ready whenever \<open>Stop\<close> is sending on \<open>exitSignal\<close>,
  which the system step checks; it covers lines 63--70 (warning and final
  flush). The statements after it, \<open>o.isRunning = false\<close> (line 72) and the
  answer on \<open>stopDone\<close> (line 92), are steps of their own in \<open>Observer_System\<close>.
\<close>

fun loop_iteration ::
  "'r Observer \<Rightarrow> select_case \<Rightarrow> instant \<Rightarrow> 'r loop_state \<Rightarrow> 'r outputs \<Rightarrow>
   ('r Observer \<times> 'r iteration \<times> 'r outputs) option" where
  "loop_iteration ob ExitSignal now ls out =
     Some (ob, Break,
           report (statsClient ob) (buffer ls) (log_line WarnExitSignal out))"
| "loop_iteration ob RecvTargetWrite now ls out =
     (case chan_recv (targetWriteChan ob) of
        None \<Rightarrow> None
      | Some (r, q) \<Rightarrow>
          Some (ob\<lparr>targetWriteChan := q\<rparr>,
                next_select ob now (ls\<lparr>buffer := ObserverBuffer_Append (buffer ls) r False\<rparr>) out))"
| "loop_iteration ob RecvTargetWriteOversized now ls out =
     (case chan_recv (targetWriteOversizedChan ob) of
        None \<Rightarrow> None
      | Some (r, q) \<Rightarrow>
          Some (ob\<lparr>targetWriteOversizedChan := q\<rparr>,
                next_select ob now (ls\<lparr>buffer := ObserverBuffer_Append (buffer ls) r True\<rparr>) out))"
| "loop_iteration ob TimeAfter now ls out =
     (if timer ls \<le> now
      then Some (ob, next_select ob now ls (log_line (DebugTimedOut (timeout ob)) out))
      else None)"

text \<open>The loop under a schedule of (case, instant) choices; it stops at the exit.\<close>

fun loop_run ::
  "'r Observer \<Rightarrow> (select_case \<times> instant) list \<Rightarrow> 'r loop_state \<Rightarrow> 'r outputs \<Rightarrow>
   ('r Observer \<times> 'r iteration \<times> 'r outputs) option" where
  "loop_run ob [] ls out = Some (ob, Continue ls, out)"
| "loop_run ob ((c, now) # cs) ls out =
     (case loop_iteration ob c now ls out of
        None \<Rightarrow> None
      | Some (ob', Break, out') \<Rightarrow> Some (ob', Break, out')
      | Some (ob', Continue ls', out') \<Rightarrow> loop_run ob' cs ls' out')"

text \<open>A quiet period: no result arrives, and the loop wakes each time its timer fires.\<close>

fun idle_run :: "'r Observer \<Rightarrow> nat \<Rightarrow> 'r loop_state \<Rightarrow> 'r outputs \<Rightarrow> 'r loop_state \<times> 'r outputs" where
  "idle_run ob 0 ls out = (ls, out)"
| "idle_run ob (Suc n) ls out =
     (case loop_iteration ob TimeAfter (timer ls) ls out of
        Some (_, Continue ls', out') \<Rightarrow> idle_run ob n ls' out'
      | _ \<Rightarrow> (ls, out))"

section \<open>Accounting of results\<close>

text \<open>The results of one tag, in order: those already flushed, those in the
  buffer \<open>b\<close>, those still in the tag's channel.\<close>

definition chan_of :: "bool \<Rightarrow> 'r Observer \<Rightarrow> 'r list" where
  "chan_of ov ob = (if ov then targetWriteOversizedChan ob else targetWriteChan ob)"

definition accounted :: "bool \<Rightarrow> 'r Observer \<Rightarrow> 'r ObserverBuffer \<Rightarrow> 'r outputs \<Rightarrow> 'r list" where
  "accounted ov ob b out = tagged ov (concat (flushed out) @ b) @ chan_of ov ob"

fun pending :: "'r iteration \<Rightarrow> 'r ObserverBuffer" where
  "pending (Continue ls) = buffer ls"
| "pending Break = []"

lemma check_report_accounted:
  "check_report ob now ls out = (ls', out') \<Longrightarrow>
   tagged ov (concat (flushed out') @ buffer ls') = tagged ov (concat (flushed out) @ buffer ls)"
  by (auto simp: check_report_def split: if_splits)

lemma next_select_accounted:
  "next_select ob now ls out = (it, out') \<Longrightarrow>
   tagged ov (concat (flushed out') @ pending it) = tagged ov (concat (flushed out) @ buffer ls)"
  by (auto simp: next_select_def dest: check_report_accounted split: prod.splits)

lemmas loop_iteration_splits = option.splits prod.splits list.splits if_splits

lemma loop_iteration_Some_cases:
  assumes "loop_iteration ob c now ls out = Some (ob', it, out')"
  obtains (exit) "c = ExitSignal" "ob' = ob" "it = Break"
      "out' = report (statsClient ob) (buffer ls) (log_line WarnExitSignal out)"
  | (recv) r q where "c = RecvTargetWrite" "targetWriteChan ob = r # q"
      "ob' = ob\<lparr>targetWriteChan := q\<rparr>"
      "(it, out') = next_select ob now (ls\<lparr>buffer := ObserverBuffer_Append (buffer ls) r False\<rparr>) out"
  | (recv_oversized) r q where "c = RecvTargetWriteOversized" "targetWriteOversizedChan ob = r # q"
      "ob' = ob\<lparr>targetWriteOversizedChan := q\<rparr>"
      "(it, out') = next_select ob now (ls\<lparr>buffer := ObserverBuffer_Append (buffer ls) r True\<rparr>) out"
  | (timed_out) "c = TimeAfter" "timer ls \<le> now" "ob' = ob"
      "(it, out') = next_select ob now ls (log_line (DebugTimedOut (timeout ob)) out)"
  using assms by (cases c) (auto simp: chan_recv_Some_iff split: option.splits if_splits)

text \<open>Every iteration keeps, for each tag, the sequence flushed-buffer entries,
  then current-buffer entries, then channel contents: nothing is lost,
  duplicated or reordered.\<close>

lemma loop_iteration_accounted:
  assumes "loop_iteration ob c now ls out = Some (ob', it, out')"
  shows "accounted ov ob' (pending it) out' = accounted ov ob (buffer ls) out"
  using assms
proof (cases rule: loop_iteration_Some_cases)
  case exit
  then show ?thesis by (simp add: accounted_def chan_of_def)
next
  case (recv r q)
  from next_select_accounted [OF recv(4) [symmetric], of ov]
  have "tagged ov (concat (flushed out') @ pending it) =
        tagged ov (concat (flushed out) @ buffer ls) @ (if ov then [] else [r])"
    by simp
  with recv show ?thesis by (simp add: accounted_def chan_of_def)
next
  case (recv_oversized r q)
  from next_select_accounted [OF recv_oversized(4) [symmetric], of ov]
  have "tagged ov (concat (flushed out') @ pending it) =
        tagged ov (concat (flushed out) @ buffer ls) @ (if ov then [r] else [])"
    by simp
  with recv_oversized show ?thesis by (simp add: accounted_def chan_of_def)
next
  case timed_out
  from next_select_accounted [OF timed_out(4) [symmetric], of ov] timed_out(3)
  show ?thesis by (simp add: accounted_def)
qed

text \<open>Only the receive case of \<open>targetWriteChan\<close> (line 74) changes that
  channel, by taking its head; and it is ready whenever a result is queued.\<close>

lemma loop_iteration_targetWriteChan:
  assumes "loop_iteration ob c now ls out = Some (ob', it, out')"
  shows "targetWriteChan ob' = targetWriteChan ob \<or>
         (c = RecvTargetWrite \<and> targetWriteChan ob' = tl (targetWriteChan ob))"
  using assms by (cases rule: loop_iteration_Some_cases) simp_all

section \<open>The deadline check\<close>

lemma next_select_Continue:
  assumes "next_select ob now ls out = (it, out')"
  obtains ls' where "it = Continue ls'" "timer ls' = now + timeout ob"
    "reportTime ls' = (if reportTime ls < now then now + reportInterval ob else reportTime ls)"
    "buffer ls' = (if reportTime ls < now then [] else buffer ls)"
    "out' = (if reportTime ls < now then report (statsClient ob) (buffer ls) out else out)"
  using assms
  by (cases "reportTime ls < now")
     (auto simp: next_select_def check_report_def ObserverBuffer_empty_def intro: that)

lemma loop_iteration_recv_ready:
  assumes "targetWriteChan ob = r # q"
  shows "\<exists>ls' out'. loop_iteration ob RecvTargetWrite now ls out =
                     Some (ob\<lparr>targetWriteChan := q\<rparr>, Continue ls', out')"
proof -
  obtain it out' where ns:
    "next_select ob now (ls\<lparr>buffer := ObserverBuffer_Append (buffer ls) r False\<rparr>) out = (it, out')"
    by fastforce
  then obtain ls' where "it = Continue ls'" by (rule next_select_Continue)
  with ns assms show ?thesis by simp
qed

lemma report_extends:
  "\<exists>new. flushed (report sc b out) = flushed out @ new \<and>
         sent (report sc b out) = sent out @ (if sc then new else [])"
  by simp

lemma next_select_extends:
  assumes "next_select ob now ls out = (it, out')"
  shows "\<exists>new. flushed out' = flushed out @ new \<and>
               sent out' = sent out @ (if statsClient ob then new else [])"
  using assms by (cases rule: next_select_Continue) auto

text \<open>The sink receives exactly the buffers that are flushed, when it is
  configured, and nothing otherwise (\<open>statsClient == nil\<close> makes a flush log-only).\<close>

lemma loop_iteration_sent:
  assumes "loop_iteration ob c now ls out = Some (ob', it, out')"
  shows "\<exists>new. flushed out' = flushed out @ new \<and>
               sent out' = sent out @ (if statsClient ob then new else [])"
  using assms
proof (cases rule: loop_iteration_Some_cases)
  case exit
  then show ?thesis by simp
next
  case (recv r q)
  from next_select_extends [OF recv(4) [symmetric]] show ?thesis by simp
next
  case (recv_oversized r q)
  from next_select_extends [OF recv_oversized(4) [symmetric]] show ?thesis by simp
next
  case timed_out
  from next_select_extends [OF timed_out(4) [symmetric]] show ?thesis by simp
qed

lemma loop_iteration_logs_extend:
  assumes "loop_iteration ob c now ls out = Some (ob', it, out')"
  shows "\<exists>new. logs out' = logs out @ new"
  using assms
proof (cases rule: loop_iteration_Some_cases)
  case (recv r q)
  then show ?thesis by (auto elim!: sym [THEN next_select_Continue])
next
  case (recv_oversized r q)
  then show ?thesis by (auto elim!: sym [THEN next_select_Continue])
next
  case timed_out
  then show ?thesis by (auto elim!: sym [THEN next_select_Continue])
qed simp

text \<open>The deadline check of a continuing iteration at instant \<open>now\<close>: a flush
  happens exactly when \<open>now\<close> is past the deadline; it empties the buffer and
  moves the deadline to \<open>now + reportInterval\<close>; otherwise the deadline stays.\<close>

lemma loop_iteration_deadline_check:
  assumes "loop_iteration ob c now ls out = Some (ob', Continue ls', out')"
  shows "length (flushed out') = length (flushed out) + (if reportTime ls < now then 1 else 0) \<and>
         reportTime ls' = (if reportTime ls < now then now + reportInterval ob else reportTime ls) \<and>
         (reportTime ls < now \<longrightarrow> buffer ls' = []) \<and> timer ls' = now + timeout ob"
  using assms
proof (cases rule: loop_iteration_Some_cases)
  case (recv r q)
  then show ?thesis by (auto elim!: sym [THEN next_select_Continue])
next
  case (recv_oversized r q)
  then show ?thesis by (auto elim!: sym [THEN next_select_Continue])
next
  case timed_out
  then show ?thesis by (auto elim!: sym [THEN next_select_Continue])
qed simp

text \<open>C14. With a non-negative report interval the deadline never moves
  backwards, and no iteration leaves it overdue.\<close>

lemma loop_iteration_deadline_ahead:
  assumes "0 \<le> reportInterval ob"
    and "loop_iteration ob c now ls out = Some (ob', Continue ls', out')"
  shows "reportTime ls \<le> reportTime ls' \<and> now \<le> reportTime ls'"
  using loop_iteration_deadline_check [OF assms(2)] assms(1) by (auto split: if_splits)

section \<open>Quiet periods\<close>

lemma idle_run_step:
  obtains ls' out' where "idle_run ob (Suc n) ls out = idle_run ob n ls' out'"
    "timer ls' = timer ls + timeout ob"
    "reportTime ls' = (if reportTime ls < timer ls then timer ls + reportInterval ob else reportTime ls)"
    "flushed out' = flushed out @ (if reportTime ls < timer ls then [buffer ls] else [])"
proof -
  obtain it out' where ns: "next_select ob (timer ls) ls (log_line (DebugTimedOut (timeout ob)) out) = (it, out')"
    by (cases "next_select ob (timer ls) ls (log_line (DebugTimedOut (timeout ob)) out)")
  then obtain ls' where it: "it = Continue ls'" and tm: "timer ls' = timer ls + timeout ob"
    and rt: "reportTime ls' = (if reportTime ls < timer ls then timer ls + reportInterval ob else reportTime ls)"
    and o: "out' = (if reportTime ls < timer ls
                    then report (statsClient ob) (buffer ls) (log_line (DebugTimedOut (timeout ob)) out)
                    else log_line (DebugTimedOut (timeout ob)) out)"
    by (rule next_select_Continue)
  from ns it have run: "idle_run ob (Suc n) ls out = idle_run ob n ls' out'"
    by simp
  from o have fl: "flushed out' = flushed out @ (if reportTime ls < timer ls then [buffer ls] else [])"
    by simp
  show ?thesis by (rule that [OF run tm rt fl])
qed

lemma idle_run_flushed_extends: "\<exists>new. flushed (snd (idle_run ob n ls out)) = flushed out @ new"
proof (induction n arbitrary: ls out)
  case 0
  then show ?case by simp
next
  case (Suc n)
  obtain ls' out' where "idle_run ob (Suc n) ls out = idle_run ob n ls' out'"
    and "flushed out' = flushed out @ (if reportTime ls < timer ls then [buffer ls] else [])"
    by (rule idle_run_step)
  with Suc.IH [of ls' out'] show ?case by auto
qed

text \<open>C15. Heartbeat: with a positive idle timeout and no traffic, the loop
  flushes once its wakeups reach past the deadline, even with nothing to report.\<close>

lemma idle_run_flushes:
  assumes "0 < timeout ob" and "reportTime ls < timer ls + int n * timeout ob"
  shows "length (flushed out) < length (flushed (snd (idle_run ob (Suc n) ls out)))"
  using assms(2)
proof (induction n arbitrary: ls out)
  case 0
  obtain ls' out' where "idle_run ob (Suc 0) ls out = idle_run ob 0 ls' out'"
    and "flushed out' = flushed out @ (if reportTime ls < timer ls then [buffer ls] else [])"
    by (rule idle_run_step)
  with "0.prems" show ?case by simp
next
  case (Suc n)
  obtain ls' out' where run: "idle_run ob (Suc (Suc n)) ls out = idle_run ob (Suc n) ls' out'"
    and tm: "timer ls' = timer ls + timeout ob"
    and rt: "reportTime ls' = (if reportTime ls < timer ls then timer ls + reportInterval ob else reportTime ls)"
    and fl: "flushed out' = flushed out @ (if reportTime ls < timer ls then [buffer ls] else [])"
    by (rule idle_run_step)
  show ?case
  proof (cases "reportTime ls < timer ls")
    case True
    with fl idle_run_flushed_extends [of ob "Suc n" ls' out'] run show ?thesis by auto
  next
    case False
    with Suc.prems tm rt have "reportTime ls' < timer ls' + int n * timeout ob"
      by (simp add: algebra_simps)
    with Suc.IH [of ls' out'] False fl run show ?thesis by simp
  qed
qed

text \<open>C16. And not before: in a quiet period no wakeup at or before the deadline
  flushes, so the flush comes at the first wakeup strictly after it.\<close>

lemma idle_run_no_early_flush:
  assumes "0 \<le> timeout ob" and "timer ls + int n * timeout ob \<le> reportTime ls"
  shows "flushed (snd (idle_run ob (Suc n) ls out)) = flushed out"
  using assms(2)
proof (induction n arbitrary: ls out)
  case 0
  obtain ls' out' where "idle_run ob (Suc 0) ls out = idle_run ob 0 ls' out'"
    and "flushed out' = flushed out @ (if reportTime ls < timer ls then [buffer ls] else [])"
    by (rule idle_run_step)
  with "0.prems" show ?case by simp
next
  case (Suc n)
  obtain ls' out' where run: "idle_run ob (Suc (Suc n)) ls out = idle_run ob (Suc n) ls' out'"
    and tm: "timer ls' = timer ls + timeout ob"
    and rt: "reportTime ls' = (if reportTime ls < timer ls then timer ls + reportInterval ob else reportTime ls)"
    and fl: "flushed out' = flushed out @ (if reportTime ls < timer ls then [buffer ls] else [])"
    by (rule idle_run_step)
  have nn: "0 \<le> int n * timeout ob" and distr: "int (Suc n) * timeout ob = timeout ob + int n * timeout ob"
    using assms(1) by (simp_all add: algebra_simps)
  with Suc.prems assms(1) have early: "\<not> reportTime ls < timer ls"
    by linarith
  with Suc.prems tm rt have "timer ls' + int n * timeout ob \<le> reportTime ls'"
    by (simp add: algebra_simps)
  with Suc.IH [of ls' out'] early fl run show ?case by simp
qed

section \<open>Properties of the loop\<close>

text \<open>C11. Over any schedule of select cases, the loop loses, duplicates and
  reorders no result: per tag, flushed entries, then buffered entries, then
  channel contents are the same sequence before and after.\<close>

theorem loop_run_accounted:
  "loop_run ob cs ls out = Some (ob', it, out') \<Longrightarrow>
   accounted ov ob' (pending it) out' = accounted ov ob (buffer ls) out"
proof (induction ob cs ls out rule: loop_run.induct)
  case (1 ob ls out)
  then show ?case by auto
next
  case (2 ob c now cs ls out)
  then obtain ob1 it1 out1 where it1: "loop_iteration ob c now ls out = Some (ob1, it1, out1)"
    by (auto split: option.splits)
  note step = loop_iteration_accounted [OF it1, of ov]
  show ?case
  proof (cases it1)
    case (Continue ls1)
    with "2.prems" it1 have "loop_run ob1 cs ls1 out1 = Some (ob', it, out')" by simp
    with "2.IH" [OF it1 refl refl Continue] step Continue show ?thesis by simp
  next
    case Break
    with "2.prems" it1 step show ?thesis by simp
  qed
qed

definition ex_observer :: "nat Observer" where
  "ex_observer = (New True 100 1000)\<lparr>targetWriteChan := [1], targetWriteOversizedChan := [2],
                                     isRunning := True\<rparr>"

theorem loop_run_accounted_witness:
  "\<exists>ob' it out'. loop_run ex_observer [(RecvTargetWrite, 0), (RecvTargetWriteOversized, 10)]
                   (loop_start ex_observer 0) no_outputs = Some (ob', it, out') \<and>
                 accounted True ob' (pending it) out' = [2]"
proof -
  have "\<exists>x. loop_run ex_observer [(RecvTargetWrite, 0), (RecvTargetWriteOversized, 10)]
                (loop_start ex_observer 0) no_outputs = Some x"
    by (simp add: ex_observer_def New_def loop_start_def next_select_def check_report_def)
  then obtain ob' it out' where run: "loop_run ex_observer [(RecvTargetWrite, 0), (RecvTargetWriteOversized, 10)]
                (loop_start ex_observer 0) no_outputs = Some (ob', it, out')"
    by auto
  have "accounted True ex_observer (buffer (loop_start ex_observer 0)) no_outputs = [2]"
    by (simp add: accounted_def chan_of_def ex_observer_def New_def loop_start_def)
  with loop_run_accounted [OF run, of True] run show ?thesis by auto
qed

text \<open>C12. The exit case (lines 63--70): the goroutine logs the warning,
  flushes its buffer exactly once (to the sink when there is one) and leaves
  the \<open>select\<close> for the end of the loop, with the observer untouched: the
  channels keep what is queued, and \<open>isRunning\<close> is still set (it is cleared
  by the next statement, line 72, a step of its own in \<open>Observer_System\<close>).\<close>

theorem loop_iteration_exit:
  assumes "loop_iteration ob ExitSignal now ls out = Some (ob', it, out')"
  shows "it = Break \<and> ob' = ob \<and> flushed out' = flushed out @ [buffer ls] \<and>
         sent out' = sent out @ (if statsClient ob then [buffer ls] else []) \<and>
         logs out' = logs out @ [WarnExitSignal, InfoBuffer (buffer ls)]"
  using assms by auto

theorem loop_iteration_exit_witness:
  "loop_iteration ex_observer ExitSignal 5 (loop_start ex_observer 0) no_outputs =
     Some (ex_observer, Break, report True [] (log_line WarnExitSignal no_outputs)) \<and>
   sent (report True [] (log_line WarnExitSignal (no_outputs :: nat outputs))) = [[]]"
proof -
  have run: "loop_iteration ex_observer ExitSignal 5 (loop_start ex_observer 0) no_outputs =
     Some (ex_observer, Break, report True [] (log_line WarnExitSignal no_outputs))"
    by (simp add: ex_observer_def New_def loop_start_def ObserverBuffer_empty_def)
  from loop_iteration_exit [OF run] run show ?thesis
    by (simp add: ex_observer_def New_def loop_start_def ObserverBuffer_empty_def)
qed

text \<open>C13. After a result or an idle wakeup, an overdue deadline (\<open>now\<close> strictly
  after \<open>reportTime\<close>) causes one flush, empties the buffer and restarts the
  deadline from \<open>now\<close>; a deadline not yet passed causes none and stays.\<close>

theorem loop_iteration_flush_when_overdue:
  assumes "loop_iteration ob c now ls out = Some (ob', Continue ls', out')"
  shows "(reportTime ls < now \<longrightarrow> length (flushed out') = Suc (length (flushed out)) \<and>
            buffer ls' = [] \<and> reportTime ls' = now + reportInterval ob) \<and>
         (\<not> reportTime ls < now \<longrightarrow> flushed out' = flushed out \<and> reportTime ls' = reportTime ls)"
proof -
  have dc: "length (flushed out') = length (flushed out) + (if reportTime ls < now then 1 else 0)"
    "reportTime ls' = (if reportTime ls < now then now + reportInterval ob else reportTime ls)"
    "reportTime ls < now \<longrightarrow> buffer ls' = []"
    using loop_iteration_deadline_check [OF assms] by simp_all
  obtain new where "flushed out' = flushed out @ new"
    using loop_iteration_sent [OF assms] by blast
  with dc show ?thesis by auto
qed

theorem loop_iteration_flush_when_overdue_witness:
  "loop_iteration ex_observer TimeAfter 1100 (loop_start ex_observer 0) no_outputs =
     Some (ex_observer, Continue \<lparr>reportTime = 2100, buffer = [], timer = 1200\<rparr>,
           report True [] (log_line (DebugTimedOut 100) no_outputs)) \<and>
   reportTime (loop_start ex_observer 0) < 1100 \<and>
   length (flushed (report True [] (log_line (DebugTimedOut 100) (no_outputs :: nat outputs)))) = 1"
proof -
  have run: "loop_iteration ex_observer TimeAfter 1100 (loop_start ex_observer 0) no_outputs =
     Some (ex_observer, Continue \<lparr>reportTime = 2100, buffer = [], timer = 1200\<rparr>,
           report True [] (log_line (DebugTimedOut 100) no_outputs))"
    by (simp add: ex_observer_def New_def loop_start_def next_select_def check_report_def
                  ObserverBuffer_empty_def)
  have due: "reportTime (loop_start ex_observer 0) < 1100"
    by (simp add: ex_observer_def New_def loop_start_def)
  from loop_iteration_flush_when_overdue [OF run] run due show ?thesis by simp
qed

theorem loop_iteration_deadline_ahead_witness:
  "0 \<le> reportInterval ex_observer \<and>
   loop_iteration ex_observer TimeAfter 1100 (loop_start ex_observer 0) no_outputs =
     Some (ex_observer, Continue \<lparr>reportTime = 2100, buffer = [], timer = 1200\<rparr>,
           report True [] (log_line (DebugTimedOut 100) no_outputs)) \<and>
   reportTime (loop_start ex_observer 0) \<le> 2100"
proof -
  have ri: "0 \<le> reportInterval ex_observer" by (simp add: ex_observer_def New_def)
  have run: "loop_iteration ex_observer TimeAfter 1100 (loop_start ex_observer 0) no_outputs =
     Some (ex_observer, Continue \<lparr>reportTime = 2100, buffer = [], timer = 1200\<rparr>,
           report True [] (log_line (DebugTimedOut 100) no_outputs))"
    by (simp add: ex_observer_def New_def loop_start_def next_select_def check_report_def
                  ObserverBuffer_empty_def)
  from loop_iteration_deadline_ahead [OF ri run] ri run show ?thesis by simp
qed

theorem idle_run_flushes_witness:
  "0 < timeout ex_observer \<and>
   reportTime (loop_start ex_observer 0) < timer (loop_start ex_observer 0) + int 10 * timeout ex_observer \<and>
   0 < length (flushed (snd (idle_run ex_observer 11 (loop_start ex_observer 0) no_outputs)))"
proof -
  have h: "0 < timeout ex_observer"
    "reportTime (loop_start ex_observer 0) < timer (loop_start ex_observer 0) + int 10 * timeout ex_observer"
    by (simp_all add: ex_observer_def New_def loop_start_def)
  from idle_run_flushes [OF h, of no_outputs] h show ?thesis by (simp add: numeral_eq_Suc)
qed

theorem idle_run_no_early_flush_witness:
  "0 \<le> timeout ex_observer \<and>
   timer (loop_start ex_observer 0) + int 9 * timeout ex_observer \<le> reportTime (loop_start ex_observer 0) \<and>
   flushed (snd (idle_run ex_observer 10 (loop_start ex_observer 0) no_outputs)) = []"
proof -
  have h: "0 \<le> timeout ex_observer"
    "timer (loop_start ex_observer 0) + int 9 * timeout ex_observer \<le> reportTime (loop_start ex_observer 0)"
    by (simp_all add: ex_observer_def New_def loop_start_def)
  from idle_run_no_early_flush [OF h, of no_outputs] h show ?thesis by (simp add: numeral_eq_Suc)
qed

text \<open>C19. Flushes are time-triggered, not count-triggered: however many results
  arrive and whatever the loop's wakeups, no flush happens while the clock
  has not passed the deadline, and the deadline stays where it is.\<close>

theorem loop_run_no_flush_before_deadline:
  assumes "loop_run ob cs ls out = Some (ob', Continue ls', out')"
    and "\<forall>p \<in> set cs. snd p \<le> reportTime ls"
  shows "flushed out' = flushed out \<and> reportTime ls' = reportTime ls"
  using assms
proof (induction ob cs ls out rule: loop_run.induct)
  case (1 ob ls out)
  then show ?case by auto
next
  case (2 ob c now cs ls out)
  then obtain ob1 it1 out1 where it1: "loop_iteration ob c now ls out = Some (ob1, it1, out1)"
    by (auto split: option.splits)
  from "2.prems"(1) it1 obtain ls1 where c1: "it1 = Continue ls1"
    and run: "loop_run ob1 cs ls1 out1 = Some (ob', Continue ls', out')"
    by (cases it1) auto
  from "2.prems"(2) have early: "\<not> reportTime ls < now" by auto
  from loop_iteration_deadline_check [OF it1 [unfolded c1]] early
  have len: "length (flushed out1) = length (flushed out)" and rt: "reportTime ls1 = reportTime ls"
    by simp_all
  from loop_iteration_sent [OF it1] len have fl: "flushed out1 = flushed out" by auto
  from "2.prems"(2) rt have "\<forall>p \<in> set cs. snd p \<le> reportTime ls1" by simp
  with "2.IH" [OF it1 refl refl c1 run] fl rt show ?case by simp
qed

theorem loop_run_no_flush_before_deadline_witness:
  "\<exists>ob' ls' out'. loop_run ex_observer [(RecvTargetWrite, 0), (RecvTargetWriteOversized, 10), (TimeAfter, 1000)]
                   (loop_start ex_observer 0) no_outputs = Some (ob', Continue ls', out') \<and>
                 (\<forall>p \<in> set [(RecvTargetWrite, 0), (RecvTargetWriteOversized, 10), (TimeAfter, 1000)].
                    snd p \<le> reportTime (loop_start ex_observer 0)) \<and>
                 flushed out' = [] \<and> buffer ls' = [(1, False), (2, True)]"
proof -
  have "\<exists>ls' out'. loop_run ex_observer [(RecvTargetWrite, 0), (RecvTargetWriteOversized, 10), (TimeAfter, 1000)]
                (loop_start ex_observer 0) no_outputs = Some (ex_observer\<lparr>targetWriteChan := [], targetWriteOversizedChan := []\<rparr>, Continue ls', out') \<and>
                buffer ls' = [(1, False), (2, True)]"
    by (simp add: ex_observer_def New_def loop_start_def next_select_def check_report_def
                  ObserverBuffer_Append_def ObserverBuffer_empty_def)
  then obtain ls' out' where run: "loop_run ex_observer [(RecvTargetWrite, 0), (RecvTargetWriteOversized, 10), (TimeAfter, 1000)]
                (loop_start ex_observer 0) no_outputs = Some (ex_observer\<lparr>targetWriteChan := [], targetWriteOversizedChan := []\<rparr>, Continue ls', out')"
    and b: "buffer ls' = [(1, False), (2, True)]"
    by blast
  have early: "\<forall>p \<in> set [(RecvTargetWrite, 0), (RecvTargetWriteOversized, 10), (TimeAfter, 1000)].
                 snd p \<le> reportTime (loop_start ex_observer (0::int))"
    by (simp add: ex_observer_def New_def loop_start_def)
  from loop_run_no_flush_before_deadline [OF run early] run early b show ?thesis by auto
qed

end
