(* ===== verification/Observer_System.thy ===== *)
theory Observer_System
  imports Observer_Loop
begin

text \<open>
  The observer with everything that runs around it: the producers calling
  \<open>TargetWrite\<close> and \<open>TargetWriteOversized\<close>, one serialized lifecycle caller
  calling \<open>Start\<close> and \<open>Stop\<close> (the specification requires external
  serialization of these calls), the goroutines \<open>Start\<close> launches, and the
  clock. A goroutine is at its entry (\<open>Spawned\<close>), in its \<open>for\<close> loop, past the
  final flush of the exit case with \<open>o.isRunning = false\<close> (line 72) still to
  run (\<open>Exiting\<close>), or blocked in \<open>o.stopDone <- struct{}{}\<close> after the loop
  (line 92); the caller is idle or blocked in one of the two channel
  operations of \<open>Stop\<close>. The unbuffered
  channels are rendezvous: the exit case of the \<open>select\<close> fires together with
  the send of \<open>Stop\<close>, and the goroutine ends together with the receive of
  \<open>Stop\<close>. \<open>pushed\<close> is a ghost history of the results each producer entry point
  accepted, per tag. The relation \<open>step\<close> interleaves all of them.
\<close>

section \<open>Goroutines, the caller, the system\<close>

datatype 'r goroutine = Spawned | Looping "'r loop_state" | Exiting | SendingStopDone

text \<open>A lifecycle caller is idle, inside \<open>Start\<close> between its check of the flag
  (line 50) and its setting of it (line 54), or blocked in \<open>Stop\<close> on
  \<open>exitSignal\<close> (line 99) or on \<open>stopDone\<close> (line 100). The serialized caller of
  this theory runs \<open>Start\<close> as one step, since nothing it could interleave with
  reads or writes the flag; concurrent callers (\<open>Observer_Callers\<close>) stop
  between the two statements.\<close>

datatype caller_pc = Idle | StartPassedCheck | StopSendingExit | StopAwaitingDone

record 'r system =
  obs :: "'r Observer"
  loops :: "'r goroutine list"
  caller :: caller_pc
  clock :: instant
  effects :: "'r outputs"
  pushed :: "bool \<Rightarrow> 'r list"

definition sys_init :: "bool \<Rightarrow> duration \<Rightarrow> duration \<Rightarrow> instant \<Rightarrow> 'r system" where
  "sys_init sc t ri t0 =
     \<lparr>obs = New sc t ri, loops = [], caller = Idle, clock = t0, effects = no_outputs,
      pushed = (\<lambda>_. [])\<rparr>"

text \<open>\<open>Start\<close>: warn and return when running; otherwise set the flag and launch
  the goroutine, without waiting for it.\<close>

definition Start :: "'r system \<Rightarrow> 'r system" where
  "Start s =
     (if isRunning (obs s) then s\<lparr>effects := log_line WarnAlreadyRunning (effects s)\<rparr>
      else s\<lparr>obs := (obs s)\<lparr>isRunning := True\<rparr>, loops := loops s @ [Spawned]\<rparr>)"

text \<open>\<open>Stop\<close>: a no-op when not running; otherwise the caller blocks sending on
  \<open>exitSignal\<close> (then on \<open>stopDone\<close>), which the steps below complete.\<close>

definition Stop :: "'r system \<Rightarrow> 'r system" where
  "Stop s = (if isRunning (obs s) then s\<lparr>caller := StopSendingExit\<rparr> else s)"

fun goroutine_buffer :: "'r goroutine \<Rightarrow> 'r ObserverBuffer" where
  "goroutine_buffer (Looping ls) = buffer ls"
| "goroutine_buffer _ = []"

section \<open>Steps\<close>

inductive step :: "'r system \<Rightarrow> 'r system \<Rightarrow> bool" where
  tick: "0 < d \<Longrightarrow> step s (s\<lparr>clock := clock s + d\<rparr>)"
| target_write: "TargetWrite (obs s) r = Some ob' \<Longrightarrow>
    step s (s\<lparr>obs := ob', pushed := (pushed s)(False := pushed s False @ [r])\<rparr>)"
| target_write_oversized: "TargetWriteOversized (obs s) r = Some ob' \<Longrightarrow>
    step s (s\<lparr>obs := ob', pushed := (pushed s)(True := pushed s True @ [r])\<rparr>)"
| start: "caller s = Idle \<Longrightarrow> step s (Start s)"
| stop: "caller s = Idle \<Longrightarrow> step s (Stop s)"
| loop_enter: "i < length (loops s) \<Longrightarrow> loops s ! i = Spawned \<Longrightarrow>
    step s (s\<lparr>loops := (loops s)[i := Looping (loop_start (obs s) (clock s))]\<rparr>)"
| loop_select: "i < length (loops s) \<Longrightarrow> loops s ! i = Looping ls \<Longrightarrow>
    loop_iteration (obs s) c (clock s) ls (effects s) = Some (ob', Continue ls', e') \<Longrightarrow>
    step s (s\<lparr>obs := ob', loops := (loops s)[i := Looping ls'], effects := e'\<rparr>)"
| loop_exit: "i < length (loops s) \<Longrightarrow> loops s ! i = Looping ls \<Longrightarrow> caller s = StopSendingExit \<Longrightarrow>
    loop_iteration (obs s) ExitSignal (clock s) ls (effects s) = Some (ob', Break, e') \<Longrightarrow>
    step s (s\<lparr>obs := ob', loops := (loops s)[i := Exiting], caller := StopAwaitingDone,
              effects := e'\<rparr>)"
| loop_clear: "i < length (loops s) \<Longrightarrow> loops s ! i = Exiting \<Longrightarrow>
    step s (s\<lparr>obs := (obs s)\<lparr>isRunning := False\<rparr>, loops := (loops s)[i := SendingStopDone]\<rparr>)"
| stop_done: "i < length (loops s) \<Longrightarrow> loops s ! i = SendingStopDone \<Longrightarrow>
    caller s = StopAwaitingDone \<Longrightarrow>
    step s (s\<lparr>loops := remove_nth i (loops s), caller := Idle\<rparr>)"

inductive reach :: "bool \<Rightarrow> duration \<Rightarrow> duration \<Rightarrow> instant \<Rightarrow> 'r system \<Rightarrow> bool"
  for sc t ri t0 where
  init: "reach sc t ri t0 (sys_init sc t ri t0)"
| trans: "reach sc t ri t0 s \<Longrightarrow> step s s' \<Longrightarrow> reach sc t ri t0 s'"

inductive_cases step_cases: "step s s'"

section \<open>Invariants\<close>

text \<open>The lifecycle invariant: at most one goroutine; the running flag is set
  exactly when a goroutine has not yet cleared it (line 72); the caller's
  position in \<open>Stop\<close> matches the goroutine's.\<close>

definition lifecycle_inv :: "'r system \<Rightarrow> bool" where
  "lifecycle_inv s \<longleftrightarrow>
     length (loops s) \<le> 1 \<and>
     (isRunning (obs s) \<longleftrightarrow> (\<exists>g \<in> set (loops s). g \<noteq> SendingStopDone)) \<and>
     (caller s = StopSendingExit \<longrightarrow> isRunning (obs s)) \<and>
     (caller s = StopAwaitingDone \<longleftrightarrow> Exiting \<in> set (loops s) \<or> SendingStopDone \<in> set (loops s))"

lemma lifecycle_inv_single:
  assumes "lifecycle_inv s" and "i < length (loops s)"
  shows "i = 0" and "loops s = [loops s ! i]"
  using assms by (cases "loops s"; simp add: lifecycle_inv_def)+

lemma loop_iteration_isRunning:
  "loop_iteration ob c now ls e = Some (ob', Continue ls', e') \<Longrightarrow> isRunning ob' = isRunning ob"
  by (auto elim: loop_iteration_Some_cases)

lemma lifecycle_inv_init: "lifecycle_inv (sys_init sc t ri t0)"
  by (simp add: lifecycle_inv_def sys_init_def New_def)

text \<open>Under the lifecycle invariant a step of the goroutine is a step of the
  only goroutine there is.\<close>

lemma step_single_cases:
  assumes "step s s'" and "lifecycle_inv s"
  obtains (tick) d where "0 < d" "s' = s\<lparr>clock := clock s + d\<rparr>"
  | (target_write) r ob' where "TargetWrite (obs s) r = Some ob'"
      "s' = s\<lparr>obs := ob', pushed := (pushed s)(False := pushed s False @ [r])\<rparr>"
  | (target_write_oversized) r ob' where "TargetWriteOversized (obs s) r = Some ob'"
      "s' = s\<lparr>obs := ob', pushed := (pushed s)(True := pushed s True @ [r])\<rparr>"
  | (start) "caller s = Idle" "s' = Start s"
  | (stop) "caller s = Idle" "s' = Stop s"
  | (loop_enter) "loops s = [Spawned]"
      "s' = s\<lparr>loops := [Looping (loop_start (obs s) (clock s))]\<rparr>"
  | (loop_select) ls c ob' ls' e' where "loops s = [Looping ls]"
      "loop_iteration (obs s) c (clock s) ls (effects s) = Some (ob', Continue ls', e')"
      "s' = s\<lparr>obs := ob', loops := [Looping ls'], effects := e'\<rparr>"
  | (loop_exit) ls where "loops s = [Looping ls]" "caller s = StopSendingExit"
      "s' = s\<lparr>loops := [Exiting], caller := StopAwaitingDone,
               effects := report (statsClient (obs s)) (buffer ls) (log_line WarnExitSignal (effects s))\<rparr>"
  | (loop_clear) "loops s = [Exiting]"
      "s' = s\<lparr>obs := (obs s)\<lparr>isRunning := False\<rparr>, loops := [SendingStopDone]\<rparr>"
  | (stop_done) "loops s = [SendingStopDone]" "caller s = StopAwaitingDone"
      "s' = s\<lparr>loops := [], caller := Idle\<rparr>"
  using assms(1)
proof cases
  case (loop_enter i)
  with lifecycle_inv_single [OF assms(2), of i] show ?thesis
    by (intro that(6)) simp_all
next
  case (loop_select i ls c ob' ls' e')
  with lifecycle_inv_single [OF assms(2), of i] show ?thesis
    by (intro that(7) [of ls c ob' ls' e']) simp_all
next
  case (loop_exit i ls ob' e')
  with lifecycle_inv_single [OF assms(2), of i] show ?thesis
    by (intro that(8) [of ls]) auto
next
  case (loop_clear i)
  with lifecycle_inv_single [OF assms(2), of i] show ?thesis
    by (intro that(9)) simp_all
next
  case (stop_done i)
  with lifecycle_inv_single [OF assms(2), of i] show ?thesis
    by (intro that(10)) simp_all
qed (blast intro: that)+

lemma step_lifecycle_inv:
  assumes "step s s'" and "lifecycle_inv s"
  shows "lifecycle_inv s'"
  using assms
proof (cases rule: step_single_cases)
  case start
  with assms(2) show ?thesis
    by (cases "loops s") (auto simp: lifecycle_inv_def Start_def)
next
  case (loop_select ls c ob' ls' e')
  from loop_select(2) have "isRunning ob' = isRunning (obs s)"
    by (rule loop_iteration_isRunning)
  with loop_select assms(2) show ?thesis by (simp add: lifecycle_inv_def)
qed (use assms(2) in \<open>auto simp: lifecycle_inv_def Stop_def TargetWrite_Some_iff
                        TargetWriteOversized_Some_iff\<close>)

lemma reach_lifecycle_inv: "reach sc t ri t0 s \<Longrightarrow> lifecycle_inv s"
  by (induction rule: reach.induct) (auto intro: lifecycle_inv_init step_lifecycle_inv)

lemma loop_iteration_config:
  "loop_iteration ob c now ls e = Some (ob', it, e') \<Longrightarrow>
   statsClient ob' = statsClient ob \<and> timeout ob' = timeout ob \<and> reportInterval ob' = reportInterval ob"
  by (auto elim: loop_iteration_Some_cases)

lemma loop_iteration_chan_shrinks:
  "loop_iteration ob c now ls e = Some (ob', it, e') \<Longrightarrow> length (chan_of ov ob') \<le> length (chan_of ov ob)"
  by (auto elim: loop_iteration_Some_cases simp: chan_of_def)

lemma Start_effects_flushed [simp]: "flushed (effects (Start s)) = flushed (effects s)"
  by (simp add: Start_def)

lemma Start_effects_sent [simp]: "sent (effects (Start s)) = sent (effects s)"
  by (simp add: Start_def)

lemma Start_Stop_config [simp]:
  "statsClient (obs (Start s)) = statsClient (obs s)" "timeout (obs (Start s)) = timeout (obs s)"
  "reportInterval (obs (Start s)) = reportInterval (obs s)"
  "chan_of ov (obs (Start s)) = chan_of ov (obs s)" "obs (Stop s) = obs s" "effects (Stop s) = effects s"
  "pushed (Start s) = pushed s" "pushed (Stop s) = pushed s" "clock (Start s) = clock s"
  "clock (Stop s) = clock s" "loops (Stop s) = loops s"
  by (simp_all add: Start_def Stop_def chan_of_def)

lemmas producer_simps = TargetWrite_Some_iff TargetWriteOversized_Some_iff chan_of_def

subsection \<open>Configuration\<close>

definition config_inv :: "bool \<Rightarrow> duration \<Rightarrow> duration \<Rightarrow> 'r system \<Rightarrow> bool" where
  "config_inv sc t ri s \<longleftrightarrow>
     statsClient (obs s) = sc \<and> timeout (obs s) = t \<and> reportInterval (obs s) = ri"

lemma step_config_inv:
  assumes "step s s'" and "lifecycle_inv s" and "config_inv sc t ri s"
  shows "config_inv sc t ri s'"
  using assms(1,2)
proof (cases rule: step_single_cases)
  case (loop_select ls c ob' ls' e')
  with assms(3) loop_iteration_config [OF loop_select(2)] show ?thesis by (simp add: config_inv_def)
qed (use assms(3) in \<open>auto simp: config_inv_def producer_simps\<close>)

lemma reach_config_inv: "reach sc t ri t0 s \<Longrightarrow> config_inv sc t ri s"
proof (induction rule: reach.induct)
  case init
  then show ?case by (simp add: config_inv_def sys_init_def New_def)
next
  case (trans s s')
  then show ?case by (blast intro: step_config_inv reach_lifecycle_inv)
qed

subsection \<open>Accounting of results\<close>

text \<open>Every result a producer handed over is, in order, in a flushed buffer,
  in the goroutine's buffer, or in its channel.\<close>

definition accounting_inv :: "'r system \<Rightarrow> bool" where
  "accounting_inv s \<longleftrightarrow>
     (\<forall>ov. pushed s ov = accounted ov (obs s) (concat (map goroutine_buffer (loops s))) (effects s))"

lemma step_accounting_inv:
  assumes "step s s'" and "lifecycle_inv s" and "accounting_inv s"
  shows "accounting_inv s'"
  using assms(1,2)
proof (cases rule: step_single_cases)
  case (loop_select ls c ob' ls' e')
  with assms(3) loop_iteration_accounted [OF loop_select(2)] show ?thesis
    by (simp add: accounting_inv_def)
next
  case (loop_exit ls)
  with assms(3) show ?thesis by (simp add: accounting_inv_def accounted_def)
next
  case start
  with assms(3) show ?thesis
    by (simp add: accounting_inv_def accounted_def Start_def chan_of_def)
qed (use assms(3) in \<open>auto simp: accounting_inv_def accounted_def producer_simps
                        loop_start_def ObserverBuffer_empty_def\<close>)

subsection \<open>The sink\<close>

definition sink_inv :: "'r system \<Rightarrow> bool" where
  "sink_inv s \<longleftrightarrow> sent (effects s) = (if statsClient (obs s) then flushed (effects s) else [])"

lemma step_sink_inv:
  assumes "step s s'" and "lifecycle_inv s" and "sink_inv s"
  shows "sink_inv s'"
  using assms(1,2)
proof (cases rule: step_single_cases)
  case (loop_select ls c ob' ls' e')
  with assms(3) loop_iteration_sent [OF loop_select(2)] loop_iteration_config [OF loop_select(2)]
  show ?thesis by (auto simp: sink_inv_def)
qed (use assms(3) in \<open>auto simp: sink_inv_def producer_simps\<close>)

subsection \<open>Channel bounds\<close>

lemma step_chans_bounded:
  assumes "step s s'" and "lifecycle_inv s" and "chans_bounded (obs s)"
  shows "chans_bounded (obs s')"
  using assms(1,2)
proof (cases rule: step_single_cases)
  case (loop_select ls c ob' ls' e')
  with assms(3) loop_iteration_chan_shrinks [OF loop_select(2), of True]
    loop_iteration_chan_shrinks [OF loop_select(2), of False]
  show ?thesis by (simp add: chans_bounded_def chan_of_def)
qed (use assms(3) in \<open>auto simp: chans_bounded_def producer_simps Start_def Stop_def\<close>)

subsection \<open>The deadline\<close>

definition deadline_inv :: "'r system \<Rightarrow> bool" where
  "deadline_inv s \<longleftrightarrow>
     (\<forall>ls. Looping ls \<in> set (loops s) \<longrightarrow> reportTime ls \<le> clock s + reportInterval (obs s))"

lemma step_deadline_inv:
  assumes "step s s'" and "lifecycle_inv s" and "deadline_inv s"
  shows "deadline_inv s'"
  using assms(1,2)
proof (cases rule: step_single_cases)
  case (loop_select ls c ob' ls' e')
  with assms(3) loop_iteration_deadline_check [OF loop_select(2)]
    loop_iteration_config [OF loop_select(2)]
  show ?thesis by (auto simp: deadline_inv_def)
next
  case start
  with assms(3) show ?thesis by (auto simp: deadline_inv_def Start_def)
qed (use assms(3) in \<open>auto simp: deadline_inv_def producer_simps loop_start_def\<close>)

subsection \<open>Invariants of reachable states\<close>

lemma reach_inv_rule:
  assumes "reach sc t ri t0 s" and "I (sys_init sc t ri t0)"
    and "\<And>s s'. step s s' \<Longrightarrow> lifecycle_inv s \<Longrightarrow> I s \<Longrightarrow> I s'"
  shows "I s"
  using assms(1)
proof (induction rule: reach.induct)
  case init
  show ?case by (rule assms(2))
next
  case (trans s s')
  then show ?case by (blast intro: assms(3) reach_lifecycle_inv)
qed

lemma reach_accounting_inv: "reach sc t ri t0 s \<Longrightarrow> accounting_inv s"
  by (erule reach_inv_rule)
     (simp add: accounting_inv_def accounted_def sys_init_def New_def chan_of_def,
      blast intro: step_accounting_inv)

lemma reach_sink_inv: "reach sc t ri t0 s \<Longrightarrow> sink_inv s"
  by (erule reach_inv_rule) (simp add: sink_inv_def sys_init_def, blast intro: step_sink_inv)

lemma reach_chans_bounded_inv: "reach sc t ri t0 s \<Longrightarrow> chans_bounded (obs s)"
  by (erule reach_inv_rule) (simp add: sys_init_def New_chans_bounded, blast intro: step_chans_bounded)

lemma reach_deadline_inv: "reach sc t ri t0 s \<Longrightarrow> deadline_inv s"
  by (erule reach_inv_rule) (simp add: deadline_inv_def sys_init_def, blast intro: step_deadline_inv)

lemma reach_idle_loops:
  assumes "reach sc t ri t0 s" and "caller s = Idle"
  shows "loops s = (if isRunning (obs s) then [hd (loops s)] else []) \<and>
         Exiting \<notin> set (loops s) \<and> SendingStopDone \<notin> set (loops s)"
  using reach_lifecycle_inv [OF assms(1)] assms(2)
  by (cases "loops s") (auto simp: lifecycle_inv_def)

section \<open>The stop protocol\<close>

lemma loop_exit_step:
  assumes "loops s = [Looping ls]" and "caller s = StopSendingExit"
  shows "step s (s\<lparr>loops := [Exiting], caller := StopAwaitingDone,
                  effects := report (statsClient (obs s)) (buffer ls)
                               (log_line WarnExitSignal (effects s))\<rparr>)"
  using step.loop_exit [of 0 s ls "obs s" "report (statsClient (obs s)) (buffer ls)
                                             (log_line WarnExitSignal (effects s))"] assms
  by simp

lemma loop_clear_step:
  assumes "loops s = [Exiting]"
  shows "step s (s\<lparr>obs := (obs s)\<lparr>isRunning := False\<rparr>, loops := [SendingStopDone]\<rparr>)"
  using step.loop_clear [of 0 s] assms by simp

lemma stop_done_step:
  assumes "loops s = [SendingStopDone]" and "caller s = StopAwaitingDone"
  shows "step s (s\<lparr>loops := [], caller := Idle\<rparr>)"
  using step.stop_done [of 0 s] assms by simp

lemma loop_enter_step:
  assumes "loops s = [Spawned]"
  shows "step s (s\<lparr>loops := [Looping (loop_start (obs s) (clock s))]\<rparr>)"
  using step.loop_enter [of 0 s] assms by simp

text \<open>From a goroutine in its loop with \<open>Stop\<close> sending the exit signal, the
  exit, the clearing of the flag and the \<open>stopDone\<close> handshake return the
  caller, with the buffer flushed once.\<close>

lemma stop_from_looping:
  assumes "loops s = [Looping ls]" and "caller s = StopSendingExit"
  shows "\<exists>s'. step\<^sup>*\<^sup>* s s' \<and> caller s' = Idle \<and> loops s' = [] \<and> \<not> isRunning (obs s') \<and>
              flushed (effects s') = flushed (effects s) @ [buffer ls] \<and>
              pushed s' = pushed s \<and> (\<forall>ov. chan_of ov (obs s') = chan_of ov (obs s))"
proof -
  let ?s1 = "s\<lparr>loops := [Exiting], caller := StopAwaitingDone,
                effects := report (statsClient (obs s)) (buffer ls) (log_line WarnExitSignal (effects s))\<rparr>"
  let ?s2 = "?s1\<lparr>obs := (obs ?s1)\<lparr>isRunning := False\<rparr>, loops := [SendingStopDone]\<rparr>"
  have "step s ?s1" using assms by (rule loop_exit_step)
  moreover have "step ?s1 ?s2" by (rule loop_clear_step) simp
  moreover have "step ?s2 (?s2\<lparr>loops := [], caller := Idle\<rparr>)" by (rule stop_done_step) simp_all
  ultimately show ?thesis
    by (intro exI [of _ "?s2\<lparr>loops := [], caller := Idle\<rparr>"]) (auto simp: chan_of_def)
qed

lemma reach_steps: "step\<^sup>*\<^sup>* s s' \<Longrightarrow> reach sc t ri t0 s \<Longrightarrow> reach sc t ri t0 s'"
  by (induction rule: rtranclp_induct) (auto intro: reach.trans)

text \<open>C2. \<open>Stop\<close> on a running observer returns (the caller is idle again)
  along the schedule in which the goroutine runs: the goroutine has exited, the
  flag is cleared, and exactly one flush happened, of the goroutine's buffer.\<close>

theorem Stop_returns:
  assumes "reach sc t ri t0 s" and "caller s = Idle" and "isRunning (obs s)"
  shows "\<exists>s'. step\<^sup>*\<^sup>* (Stop s) s' \<and> caller s' = Idle \<and> loops s' = [] \<and> \<not> isRunning (obs s') \<and>
              flushed (effects s') = flushed (effects s) @ [concat (map goroutine_buffer (loops s))]"
proof -
  from reach_idle_loops [OF assms(1,2)] assms(3)
  have "loops s = [hd (loops s)]" and "Exiting \<notin> set (loops s)" "SendingStopDone \<notin> set (loops s)"
    by simp_all
  then obtain g where g: "loops s = [g]" "g \<noteq> Exiting" "g \<noteq> SendingStopDone"
    by (metis list.set_intros(1))
  have stop: "loops (Stop s) = [g]" "caller (Stop s) = StopSendingExit" "effects (Stop s) = effects s"
    using g assms(3) by (simp_all add: Stop_def)
  show ?thesis
  proof (cases g)
    case Spawned
    let ?s1 = "(Stop s)\<lparr>loops := [Looping (loop_start (obs (Stop s)) (clock (Stop s)))]\<rparr>"
    have "step (Stop s) ?s1" using stop Spawned by (intro loop_enter_step) simp
    moreover obtain s' where "step\<^sup>*\<^sup>* ?s1 s'" "caller s' = Idle" "loops s' = []" "\<not> isRunning (obs s')"
      "flushed (effects s') = flushed (effects ?s1) @ [buffer (loop_start (obs (Stop s)) (clock (Stop s)))]"
      using stop_from_looping [of ?s1] stop by auto
    ultimately show ?thesis using g Spawned stop
      by (intro exI [of _ s']) (simp add: loop_start_def ObserverBuffer_empty_def)
  next
    case (Looping ls)
    with stop_from_looping [of "Stop s" ls] stop g show ?thesis by auto
  qed (use g in auto)
qed

text \<open>C3. \<open>Stop\<close> does not drain the channels: from every reachable state
  with a sink, the goroutine in its loop and a result queued on
  \<open>targetWriteChan\<close>, the exit signal and the queued result are both ready,
  and Go's \<open>select\<close> may take the exit. \<open>Stop\<close> then returns with nothing
  pushed after the call, the goroutine gone, the channel exactly as it was
  when \<open>Stop\<close> was called, and a final flush of the goroutine's buffer only:
  the results queued before the call are not delivered to the sink.\<close>

theorem Stop_strands_queued_result:
  assumes "reach True t ri t0 s" and "caller s = Idle" and "loops s = [Looping ls]"
    and "targetWriteChan (obs s) \<noteq> []"
  shows "\<exists>s'. step\<^sup>*\<^sup>* (Stop s) s' \<and> caller s' = Idle \<and> loops s' = [] \<and> \<not> isRunning (obs s') \<and>
              pushed s' = pushed s \<and> targetWriteChan (obs s') = targetWriteChan (obs s) \<and>
              sent (effects s') = sent (effects s) @ [buffer ls] \<and>
              tagged False (concat (sent (effects s'))) \<noteq> pushed s' False"
proof -
  have run: "isRunning (obs s)"
    using reach_lifecycle_inv [OF assms(1)] assms(2,3) by (simp add: lifecycle_inv_def)
  have l: "loops (Stop s) = [Looping ls]" "caller (Stop s) = StopSendingExit"
    using assms(3) run by (simp_all add: Stop_def)
  from stop_from_looping [OF l] obtain s' where s': "step\<^sup>*\<^sup>* (Stop s) s'" "caller s' = Idle"
    "loops s' = []" "\<not> isRunning (obs s')" "flushed (effects s') = flushed (effects s) @ [buffer ls]"
    "pushed s' = pushed s" "chan_of False (obs s') = chan_of False (obs s)"
    by (auto simp: Stop_def)
  have r': "reach True t ri t0 s'"
    by (rule reach_steps [OF s'(1) reach.trans [OF assms(1) step.stop [OF assms(2)]]])
  have sc: "statsClient (obs s)" "statsClient (obs s')"
    using reach_config_inv [OF assms(1)] reach_config_inv [OF r'] by (simp_all add: config_inv_def)
  have sent: "sent (effects s') = sent (effects s) @ [buffer ls]"
    using reach_sink_inv [OF assms(1)] reach_sink_inv [OF r'] sc s'(5) by (simp add: sink_inv_def)
  have ch: "targetWriteChan (obs s') = targetWriteChan (obs s)" using s'(7) by (simp add: chan_of_def)
  have "pushed s' False = tagged False (concat (sent (effects s'))) @ targetWriteChan (obs s')"
    using reach_accounting_inv [OF r'] reach_sink_inv [OF r'] sc s'(3)
    by (simp add: accounting_inv_def accounted_def sink_inv_def chan_of_def)
  with ch assms(4) have "tagged False (concat (sent (effects s'))) \<noteq> pushed s' False" by auto
  with s' sent ch show ?thesis by blast
qed

section \<open>Example runs\<close>

text \<open>Concrete reachable states (sink configured, idle timeout 100, report
  interval 1000, clock at 0): before \<open>Start\<close>, after it, with the goroutine in
  its loop, and after a producer pushed result 7.\<close>

definition ex_new :: "nat system" where
  "ex_new = sys_init True 100 1000 0"

definition ex_started :: "nat system" where
  "ex_started = Start ex_new"

definition ex_looping :: "nat system" where
  "ex_looping = ex_started\<lparr>loops := [Looping (loop_start (obs ex_started) 0)]\<rparr>"

definition ex_written :: "nat system" where
  "ex_written = ex_looping\<lparr>obs := (obs ex_looping)\<lparr>targetWriteChan := [7]\<rparr>,
                           pushed := (pushed ex_looping)(False := [7])\<rparr>"

lemmas ex_defs = ex_new_def ex_started_def ex_looping_def ex_written_def sys_init_def New_def
  Start_def loop_start_def

lemma reach_ex_new: "reach True 100 1000 0 ex_new"
  unfolding ex_new_def by (rule reach.init)

lemma reach_ex_started: "reach True 100 1000 0 ex_started"
  unfolding ex_started_def by (rule reach.trans [OF reach_ex_new step.start]) (simp add: ex_defs)

lemma step_ex_looping: "step ex_started ex_looping"
proof -
  have "loops ex_started = [Spawned]" and c: "clock ex_started = 0" by (simp_all add: ex_defs)
  from loop_enter_step [OF this(1)] c show ?thesis by (simp add: ex_looping_def)
qed

lemma reach_ex_looping: "reach True 100 1000 0 ex_looping"
  using reach_ex_started step_ex_looping by (rule reach.trans)

lemma reach_ex_written: "reach True 100 1000 0 ex_written"
proof -
  have "TargetWrite (obs ex_looping) 7 = Some ((obs ex_looping)\<lparr>targetWriteChan := [7]\<rparr>)"
    and p: "pushed ex_looping False = []"
    by (simp_all add: TargetWrite_Some_iff ex_defs result_chan_capacity_def)
  from step.target_write [OF this(1)] p have "step ex_looping ex_written"
    by (simp add: ex_written_def)
  with reach_ex_looping show ?thesis by (rule reach.trans)
qed

theorem Stop_strands_queued_result_witness:
  "reach True 100 1000 0 ex_written \<and> caller ex_written = Idle \<and>
   loops ex_written = [Looping (loop_start (obs ex_started) 0)] \<and> targetWriteChan (obs ex_written) = [7] \<and>
   (\<exists>s'. step\<^sup>*\<^sup>* (Stop ex_written) s' \<and> caller s' = Idle \<and> targetWriteChan (obs s') = [7] \<and>
         pushed s' False = [7] \<and> sent (effects s') = [[]])"
proof -
  have h: "caller ex_written = Idle" "loops ex_written = [Looping (loop_start (obs ex_started) 0)]"
    "targetWriteChan (obs ex_written) = [7]" "targetWriteChan (obs ex_written) \<noteq> []"
    "pushed ex_written False = [7]" "sent (effects ex_written) = []"
    "buffer (loop_start (obs ex_started) 0) = ([] :: (nat \<times> bool) list)"
    by (simp_all add: ex_defs ex_written_def ObserverBuffer_empty_def)
  from Stop_strands_queued_result [OF reach_ex_written h(1,2,4)] h reach_ex_written
  show ?thesis by fastforce
qed

section \<open>Properties of the observer\<close>

text \<open>C1. No result is lost or duplicated, and each queue is FIFO: in every
  reachable state, the results each producer entry point accepted are, in
  order, those in the flushed buffers, then those in the goroutine's buffer,
  then those still in the channel (per tag: normal or oversized).\<close>

theorem reach_results_accounted:
  assumes "reach sc t ri t0 s"
  shows "pushed s ov =
           tagged ov (concat (flushed (effects s)) @ concat (map goroutine_buffer (loops s))) @
           chan_of ov (obs s)"
  using reach_accounting_inv [OF assms] by (simp add: accounting_inv_def accounted_def)

theorem reach_results_accounted_witness:
  "reach True 100 1000 0 ex_written \<and>
   pushed ex_written False =
     tagged False (concat (flushed (effects ex_written)) @
                   concat (map goroutine_buffer (loops ex_written))) @ chan_of False (obs ex_written)"
  using reach_ex_written reach_results_accounted [OF reach_ex_written, of False] by simp

text \<open>C4. \<open>Start\<close> never launches a second loop: in every reachable state there is
  at most one goroutine, and the running flag is set exactly when a goroutine
  has not yet reached \<open>o.isRunning = false\<close> (line 72).\<close>

theorem reach_one_goroutine:
  assumes "reach sc t ri t0 s"
  shows "length (loops s) \<le> 1 \<and> (isRunning (obs s) \<longleftrightarrow> (\<exists>g \<in> set (loops s). g \<noteq> SendingStopDone))"
  using reach_lifecycle_inv [OF assms] by (simp add: lifecycle_inv_def)

theorem reach_one_goroutine_witness:
  "reach True 100 1000 0 ex_started \<and> length (loops ex_started) \<le> 1 \<and> isRunning (obs ex_started)"
proof -
  have "loops ex_started = [Spawned]" by (simp add: ex_defs)
  with reach_one_goroutine [OF reach_ex_started] reach_ex_started show ?thesis by simp
qed

text \<open>C5. Calling \<open>Start\<close> twice on a stopped observer launches one goroutine;
  the second call only logs a warning.\<close>

theorem Start_twice:
  assumes "reach sc t ri t0 s" and "caller s = Idle" and "\<not> isRunning (obs s)"
  shows "loops (Start (Start s)) = [Spawned] \<and> obs (Start (Start s)) = (obs s)\<lparr>isRunning := True\<rparr> \<and>
         logs (effects (Start (Start s))) = logs (effects s) @ [WarnAlreadyRunning]"
  using reach_idle_loops [OF assms(1,2)] assms(3) by (simp add: Start_def)

theorem Start_twice_witness:
  "reach True 100 1000 0 ex_new \<and> caller ex_new = Idle \<and> \<not> isRunning (obs ex_new) \<and>
   loops (Start (Start ex_new)) = [Spawned] \<and>
   logs (effects (Start (Start ex_new))) = [WarnAlreadyRunning]"
proof -
  have h: "caller ex_new = Idle" "\<not> isRunning (obs ex_new)" "logs (effects ex_new) = []"
    by (simp_all add: ex_defs)
  from Start_twice [OF reach_ex_new h(1,2)] h reach_ex_new show ?thesis by simp
qed

text \<open>C6. \<open>Stop\<close> on an observer that is not running returns at once and
  changes nothing; there is then no goroutine to wait for.\<close>

theorem Stop_not_running:
  assumes "reach sc t ri t0 s" and "caller s = Idle" and "\<not> isRunning (obs s)"
  shows "Stop s = s \<and> loops s = []"
  using reach_idle_loops [OF assms(1,2)] assms(3) by (simp add: Stop_def)

theorem Stop_not_running_witness:
  "reach True 100 1000 0 ex_new \<and> caller ex_new = Idle \<and> \<not> isRunning (obs ex_new) \<and>
   Stop ex_new = ex_new"
proof -
  have h: "caller ex_new = Idle" "\<not> isRunning (obs ex_new)" by (simp_all add: ex_defs)
  from Stop_not_running [OF reach_ex_new h] h reach_ex_new show ?thesis by simp
qed

text \<open>C7. The sink receives exactly the flushed buffers, in order, when one is
  configured; without one (\<open>statsClient == nil\<close>) flushes only log.\<close>

theorem reach_sink_receives_flushed:
  assumes "reach sc t ri t0 s"
  shows "sent (effects s) = (if sc then flushed (effects s) else [])"
  using reach_sink_inv [OF assms] reach_config_inv [OF assms] by (simp add: sink_inv_def config_inv_def)

theorem reach_sink_receives_flushed_witness:
  "reach True 100 1000 0 ex_looping \<and> sent (effects ex_looping) = flushed (effects ex_looping)"
  using reach_ex_looping reach_sink_receives_flushed [OF reach_ex_looping] by simp

text \<open>C8. Both result channels stay within their capacity of 1000.\<close>

theorem reach_chans_within_capacity:
  assumes "reach sc t ri t0 s"
  shows "length (targetWriteChan (obs s)) \<le> 1000 \<and> length (targetWriteOversizedChan (obs s)) \<le> 1000"
  using reach_chans_bounded_inv [OF assms] by (simp add: chans_bounded_def result_chan_capacity_def)

theorem reach_chans_within_capacity_witness:
  "reach True 100 1000 0 ex_written \<and> length (targetWriteChan (obs ex_written)) \<le> 1000"
  using reach_ex_written reach_chans_within_capacity [OF reach_ex_written] by simp

theorem Stop_returns_witness:
  "reach True 100 1000 0 ex_started \<and> caller ex_started = Idle \<and> isRunning (obs ex_started) \<and>
   (\<exists>s'. step\<^sup>*\<^sup>* (Stop ex_started) s' \<and> caller s' = Idle \<and> loops s' = [] \<and>
         \<not> isRunning (obs s') \<and> flushed (effects s') = [[]])"
proof -
  have h: "caller ex_started = Idle" "isRunning (obs ex_started)"
    "loops ex_started = [Spawned]" "logs (effects ex_started) = []"
    by (simp_all add: ex_defs)
  from Stop_returns [OF reach_ex_started h(1,2)] h reach_ex_started show ?thesis by simp
qed

text \<open>Only two steps change \<open>targetWriteChan\<close>: a producer's \<open>TargetWrite\<close>,
  and a goroutine in its loop taking the channel's head (line 74).\<close>

lemma step_targetWriteChan:
  assumes "step s s'"
  shows "targetWriteChan (obs s') = targetWriteChan (obs s) \<and> pushed s' False = pushed s False \<or>
         (\<exists>r. TargetWrite (obs s) r = Some (obs s') \<and> pushed s' False = pushed s False @ [r]) \<or>
         (\<exists>ls. Looping ls \<in> set (loops s) \<and> targetWriteChan (obs s') = tl (targetWriteChan (obs s)) \<and>
               pushed s' = pushed s)"
  using assms
proof cases
  case (loop_select i ls c ob' ls' e')
  have "Looping ls \<in> set (loops s)" using loop_select(2,3) nth_mem by fastforce
  with loop_select(1) loop_iteration_targetWriteChan [OF loop_select(4)] show ?thesis by auto
qed (auto simp: TargetWriteOversized_Some_iff Start_def Stop_def)

text \<open>A goroutine in its loop can always take a queued normal result.\<close>

lemma loop_recv_step:
  assumes "Looping ls \<in> set (loops s)" and "targetWriteChan (obs s) = r # q"
  shows "\<exists>s'. step s s' \<and> targetWriteChan (obs s') = q"
proof -
  obtain i where i: "i < length (loops s)" "loops s ! i = Looping ls"
    using assms(1) by (auto simp: in_set_conv_nth)
  from loop_iteration_recv_ready [OF assms(2)] obtain ls' e' where
    it: "loop_iteration (obs s) RecvTargetWrite (clock s) ls (effects s) =
         Some ((obs s)\<lparr>targetWriteChan := q\<rparr>, Continue ls', e')"
    by blast
  from step.loop_select [OF i it] show ?thesis by fastforce
qed

text \<open>C9. Backpressure (lines 108--110 against line 74): a producer pushing
  onto a full \<open>targetWriteChan\<close> is not accepted; no step of the system accepts
  its result, and the only step that changes the channel is a goroutine in
  its loop taking the channel's head, so the producer stays blocked until the
  loop drains a slot; and a goroutine in its loop can always take that step,
  after which the push goes through.\<close>

theorem full_chan_blocks_producer:
  assumes "length (targetWriteChan (obs s)) = result_chan_capacity"
  shows "TargetWrite (obs s) r = None \<and>
         (step s s' \<longrightarrow> pushed s' False = pushed s False \<and>
            (targetWriteChan (obs s') = targetWriteChan (obs s) \<or>
             (\<exists>ls. Looping ls \<in> set (loops s) \<and>
                   targetWriteChan (obs s') = tl (targetWriteChan (obs s))))) \<and>
         (Looping ls \<in> set (loops s) \<longrightarrow> (\<exists>s''. step s s'' \<and> TargetWrite (obs s'') r \<noteq> None))"
proof -
  have full: "TargetWrite (obs s) r' = None" for r'
    using assms by (simp add: TargetWrite_def chan_send_def)
  obtain r0 q where q: "targetWriteChan (obs s) = r0 # q"
    using assms by (cases "targetWriteChan (obs s)") (simp_all add: result_chan_capacity_def)
  have "Looping ls \<in> set (loops s) \<Longrightarrow> \<exists>s''. step s s'' \<and> TargetWrite (obs s'') r \<noteq> None"
    using loop_recv_step [OF _ q] assms q by (fastforce simp: TargetWrite_def chan_send_def)
  moreover have "step s s' \<Longrightarrow> pushed s' False = pushed s False \<and>
            (targetWriteChan (obs s') = targetWriteChan (obs s) \<or>
             (\<exists>ls. Looping ls \<in> set (loops s) \<and> targetWriteChan (obs s') = tl (targetWriteChan (obs s))))"
    using step_targetWriteChan [of s s'] full by auto
  ultimately show ?thesis using full by blast
qed

definition ex_full :: "nat system" where
  "ex_full = ex_looping\<lparr>obs := (obs ex_looping)\<lparr>targetWriteChan := replicate 1000 7\<rparr>\<rparr>"

theorem full_chan_blocks_producer_witness:
  "length (targetWriteChan (obs ex_full)) = result_chan_capacity \<and>
   TargetWrite (obs ex_full) 8 = None \<and>
   step ex_full (ex_full\<lparr>clock := clock ex_full + 1\<rparr>) \<and>
   targetWriteChan (obs (ex_full\<lparr>clock := clock ex_full + 1\<rparr>)) = targetWriteChan (obs ex_full) \<and>
   Looping (loop_start (obs ex_started) 0) \<in> set (loops ex_full) \<and>
   (\<exists>s''. step ex_full s'' \<and> TargetWrite (obs s'') 8 \<noteq> None)"
proof -
  have full: "length (targetWriteChan (obs ex_full)) = result_chan_capacity"
    by (simp add: ex_full_def result_chan_capacity_def)
  have st: "step ex_full (ex_full\<lparr>clock := clock ex_full + 1\<rparr>)" by (rule step.tick) simp
  have l: "Looping (loop_start (obs ex_started) 0) \<in> set (loops ex_full)"
    by (simp add: ex_full_def ex_looping_def)
  from full_chan_blocks_producer [OF full, of 8 "ex_full\<lparr>clock := clock ex_full + 1\<rparr>"
                                   "loop_start (obs ex_started) 0"] full st l
  show ?thesis by simp
qed

text \<open>C10. The deadline of the running loop is never more than one report
  interval ahead of the clock.\<close>

theorem reach_deadline_within_interval:
  assumes "reach sc t ri t0 s" and "Looping ls \<in> set (loops s)"
  shows "reportTime ls \<le> clock s + ri"
  using reach_deadline_inv [OF assms(1)] reach_config_inv [OF assms(1)] assms(2)
  by (auto simp: deadline_inv_def config_inv_def)

theorem reach_deadline_within_interval_witness:
  "reach True 100 1000 0 ex_looping \<and> Looping (loop_start (obs ex_started) 0) \<in> set (loops ex_looping) \<and>
   reportTime (loop_start (obs ex_started) 0) \<le> clock ex_looping + 1000"
proof -
  have m: "Looping (loop_start (obs ex_started) 0) \<in> set (loops ex_looping)"
    by (simp add: ex_looping_def)
  from reach_deadline_within_interval [OF reach_ex_looping m] m reach_ex_looping show ?thesis by simp
qed

text \<open>C20. \<open>Stop\<close> blocks until the goroutine has left: the only step that returns
  a blocked \<open>Stop\<close> to its caller is the \<open>stopDone\<close> handshake with a goroutine that
  has already left its loop, after which no goroutine remains and the flag is
  clear.\<close>

theorem Stop_returns_after_exit:
  assumes "reach sc t ri t0 s" and "step s s'" and "caller s \<noteq> Idle" and "caller s' = Idle"
  shows "loops s = [SendingStopDone] \<and> loops s' = [] \<and> \<not> isRunning (obs s')"
  using assms(2) reach_lifecycle_inv [OF assms(1)]
proof (cases rule: step_single_cases)
  case stop_done
  with reach_lifecycle_inv [OF assms(1)] show ?thesis by (simp add: lifecycle_inv_def)
qed (use assms(3,4) in \<open>auto simp: Start_def Stop_def\<close>)

definition ex_exiting :: "nat system" where
  "ex_exiting = (Stop ex_looping)\<lparr>loops := [Exiting], caller := StopAwaitingDone,
     effects := report (statsClient (obs (Stop ex_looping))) (buffer (loop_start (obs ex_started) 0))
                  (log_line WarnExitSignal (effects (Stop ex_looping)))\<rparr>"

definition ex_exited :: "nat system" where
  "ex_exited = ex_exiting\<lparr>obs := (obs ex_exiting)\<lparr>isRunning := False\<rparr>, loops := [SendingStopDone]\<rparr>"

lemma reach_ex_exited: "reach True 100 1000 0 ex_exited"
proof -
  have r: "reach True 100 1000 0 (Stop ex_looping)"
    by (rule reach.trans [OF reach_ex_looping step.stop]) (simp add: ex_defs)
  have "loops (Stop ex_looping) = [Looping (loop_start (obs ex_started) 0)]"
    "caller (Stop ex_looping) = StopSendingExit"
    by (simp_all add: ex_defs Stop_def)
  from loop_exit_step [OF this] have "step (Stop ex_looping) ex_exiting"
    by (simp add: ex_exiting_def)
  moreover have "step ex_exiting ex_exited"
    unfolding ex_exited_def by (rule loop_clear_step) (simp add: ex_exiting_def)
  ultimately show ?thesis using r by (blast intro: reach.trans)
qed

theorem Stop_returns_after_exit_witness:
  "reach True 100 1000 0 ex_exited \<and> step ex_exited (ex_exited\<lparr>loops := [], caller := Idle\<rparr>) \<and>
   caller ex_exited \<noteq> Idle \<and> caller (ex_exited\<lparr>loops := [], caller := Idle\<rparr>) = Idle \<and>
   \<not> isRunning (obs (ex_exited\<lparr>loops := [], caller := Idle\<rparr>))"
proof -
  have st: "step ex_exited (ex_exited\<lparr>loops := [], caller := Idle\<rparr>)"
    by (rule stop_done_step) (simp_all add: ex_exited_def ex_exiting_def)
  have c: "caller ex_exited \<noteq> Idle" "caller (ex_exited\<lparr>loops := [], caller := Idle\<rparr>) = Idle"
    by (simp_all add: ex_exited_def ex_exiting_def)
  from Stop_returns_after_exit [OF reach_ex_exited st c] reach_ex_exited st c show ?thesis by simp
qed

text \<open>C21. Without a goroutine (before \<open>Start\<close> or after \<open>Stop\<close>) nothing drains
  the channels: every step leaves each channel's contents as a prefix of the
  new ones, so producers keep filling it and, at capacity, block until the
  observer is started again.\<close>

theorem no_goroutine_no_drain:
  assumes "step s s'" and "loops s = []"
  shows "\<exists>new. chan_of ov (obs s') = chan_of ov (obs s) @ new"
  using assms
  by cases (auto simp: TargetWrite_Some_iff TargetWriteOversized_Some_iff chan_of_def
                       Start_def Stop_def)

theorem no_goroutine_no_drain_witness:
  "step ex_new (ex_new\<lparr>obs := (obs ex_new)\<lparr>targetWriteChan := [7]\<rparr>,
                        pushed := (pushed ex_new)(False := pushed ex_new False @ [7])\<rparr>) \<and>
   loops ex_new = [] \<and>
   chan_of False (obs (ex_new\<lparr>obs := (obs ex_new)\<lparr>targetWriteChan := [7]\<rparr>,
                               pushed := (pushed ex_new)(False := pushed ex_new False @ [7])\<rparr>)) = [7]"
proof -
  have tw: "TargetWrite (obs ex_new) 7 = Some ((obs ex_new)\<lparr>targetWriteChan := [7]\<rparr>)"
    by (simp add: TargetWrite_Some_iff ex_defs result_chan_capacity_def)
  have st: "step ex_new (ex_new\<lparr>obs := (obs ex_new)\<lparr>targetWriteChan := [7]\<rparr>,
                        pushed := (pushed ex_new)(False := pushed ex_new False @ [7])\<rparr>)"
    by (rule step.target_write [OF tw])
  have l: "loops ex_new = []" by (simp add: ex_defs)
  from no_goroutine_no_drain [OF st l, of False] st l show ?thesis
    by (simp add: chan_of_def ex_defs)
qed

end
