(* ===== verification/Observer_Trace.thy ===== *)
theory Observer_Trace
  imports Observer_System
begin

text \<open>
  An executable scheduler for the observer: a datatype of the events that
  make up a run (a clock tick, a producer's push, a lifecycle call, a step of
  the goroutine) and a step function on the system state that performs one of
  them when it is enabled. Under the lifecycle invariant the events generate
  exactly the relation \<open>step\<close>, so a list of events is a run of the program
  that \<open>simp\<close> evaluates, and facts about reachable states apply to its end.
\<close>

datatype 'r event =
    Tick duration
  | Push 'r
  | PushOversized 'r
  | CallStart
  | CallStop
  | Enter
  | Select select_case
  | ExitLoop
  | ClearFlag
  | StopDone

fun exec_event :: "'r system \<Rightarrow> 'r event \<Rightarrow> 'r system option" where
  "exec_event s (Tick d) = (if 0 < d then Some (s\<lparr>clock := clock s + d\<rparr>) else None)"
| "exec_event s (Push r) =
     map_option (\<lambda>ob'. s\<lparr>obs := ob', pushed := (pushed s)(False := pushed s False @ [r])\<rparr>)
       (TargetWrite (obs s) r)"
| "exec_event s (PushOversized r) =
     map_option (\<lambda>ob'. s\<lparr>obs := ob', pushed := (pushed s)(True := pushed s True @ [r])\<rparr>)
       (TargetWriteOversized (obs s) r)"
| "exec_event s CallStart = (if caller s = Idle then Some (Start s) else None)"
| "exec_event s CallStop = (if caller s = Idle then Some (Stop s) else None)"
| "exec_event s Enter =
     (case loops s of
        [Spawned] \<Rightarrow> Some (s\<lparr>loops := [Looping (loop_start (obs s) (clock s))]\<rparr>)
      | _ \<Rightarrow> None)"
| "exec_event s (Select c) =
     (case loops s of
        [Looping ls] \<Rightarrow>
          (case loop_iteration (obs s) c (clock s) ls (effects s) of
             Some (ob', Continue ls', e') \<Rightarrow>
               Some (s\<lparr>obs := ob', loops := [Looping ls'], effects := e'\<rparr>)
           | _ \<Rightarrow> None)
      | _ \<Rightarrow> None)"
| "exec_event s ExitLoop =
     (case loops s of
        [Looping ls] \<Rightarrow>
          (if caller s = StopSendingExit
           then (case loop_iteration (obs s) ExitSignal (clock s) ls (effects s) of
                   Some (ob', Break, e') \<Rightarrow>
                     Some (s\<lparr>obs := ob', loops := [Exiting],
                             caller := StopAwaitingDone, effects := e'\<rparr>)
                 | _ \<Rightarrow> None)
           else None)
      | _ \<Rightarrow> None)"
| "exec_event s ClearFlag =
     (case loops s of
        [Exiting] \<Rightarrow> Some (s\<lparr>obs := (obs s)\<lparr>isRunning := False\<rparr>, loops := [SendingStopDone]\<rparr>)
      | _ \<Rightarrow> None)"
| "exec_event s StopDone =
     (case loops s of
        [SendingStopDone] \<Rightarrow>
          (if caller s = StopAwaitingDone then Some (s\<lparr>loops := [], caller := Idle\<rparr>) else None)
      | _ \<Rightarrow> None)"

fun run_events :: "'r system \<Rightarrow> 'r event list \<Rightarrow> 'r system option" where
  "run_events s [] = Some s"
| "run_events s (e # es) = (case exec_event s e of None \<Rightarrow> None | Some s' \<Rightarrow> run_events s' es)"

section \<open>The scheduler generates the step relation\<close>

lemma exec_event_step: "exec_event s e = Some s' \<Longrightarrow> step s s'"
proof (cases e)
  case Enter
  assume "exec_event s e = Some s'"
  with Enter show ?thesis
    by (auto split: list.splits goroutine.splits intro: loop_enter_step)
next
  case (Select c)
  assume ex: "exec_event s e = Some s'"
  with Select obtain ls ob' ls' e' where "loops s = [Looping ls]"
    "loop_iteration (obs s) c (clock s) ls (effects s) = Some (ob', Continue ls', e')"
    "s' = s\<lparr>obs := ob', loops := [Looping ls'], effects := e'\<rparr>"
    by (auto split: list.splits goroutine.splits option.splits iteration.splits)
  with step.loop_select [of 0 s ls c ob' ls' e'] show ?thesis by simp
next
  case ExitLoop
  assume ex: "exec_event s e = Some s'"
  with ExitLoop obtain ls ob' e' where "loops s = [Looping ls]" "caller s = StopSendingExit"
    "loop_iteration (obs s) ExitSignal (clock s) ls (effects s) = Some (ob', Break, e')"
    "s' = s\<lparr>obs := ob', loops := [Exiting], caller := StopAwaitingDone, effects := e'\<rparr>"
    by (auto split: list.splits goroutine.splits option.splits iteration.splits if_splits)
  with step.loop_exit [of 0 s ls ob' e'] show ?thesis by auto
next
  case ClearFlag
  assume "exec_event s e = Some s'"
  with ClearFlag show ?thesis
    by (auto split: list.splits goroutine.splits intro: loop_clear_step)
next
  case StopDone
  assume "exec_event s e = Some s'"
  with StopDone show ?thesis
    by (auto split: list.splits goroutine.splits if_splits intro: stop_done_step)
qed (auto split: if_splits intro: step.intros)

lemma step_exec_event:
  assumes "step s s'" and "lifecycle_inv s"
  shows "\<exists>e. exec_event s e = Some s'"
  using assms
proof (cases rule: step_single_cases)
  case (tick d)
  then show ?thesis by (intro exI [of _ "Tick d"]) simp
next
  case (target_write r ob')
  then show ?thesis by (intro exI [of _ "Push r"]) simp
next
  case (target_write_oversized r ob')
  then show ?thesis by (intro exI [of _ "PushOversized r"]) simp
next
  case start
  then show ?thesis by (intro exI [of _ CallStart]) simp
next
  case stop
  then show ?thesis by (intro exI [of _ CallStop]) simp
next
  case loop_enter
  then show ?thesis by (intro exI [of _ Enter]) simp
next
  case (loop_select ls c ob' ls' e')
  then show ?thesis by (intro exI [of _ "Select c"]) simp
next
  case (loop_exit ls)
  then show ?thesis by (intro exI [of _ ExitLoop]) simp
next
  case loop_clear
  then show ?thesis by (intro exI [of _ ClearFlag]) simp
next
  case stop_done
  then show ?thesis by (intro exI [of _ StopDone]) simp
qed

lemma run_events_steps: "run_events s es = Some s' \<Longrightarrow> step\<^sup>*\<^sup>* s s'"
proof (induction s es rule: run_events.induct)
  case (1 s)
  then show ?case by simp
next
  case (2 s e es)
  then obtain s1 where ex: "exec_event s e = Some s1" and "run_events s1 es = Some s'"
    by (auto split: option.splits)
  with "2.IH" have "step\<^sup>*\<^sup>* s1 s'" by simp
  with exec_event_step [OF ex] show ?case by (rule converse_rtranclp_into_rtranclp)
qed

lemma run_events_reach:
  "run_events (sys_init sc t ri t0) es = Some s \<Longrightarrow> reach sc t ri t0 s"
  using reach_steps [OF run_events_steps reach.init] by blast

lemma run_events_append:
  "run_events s (es @ fs) = (case run_events s es of None \<Rightarrow> None | Some s' \<Rightarrow> run_events s' fs)"
  by (induction s es rule: run_events.induct) (auto split: option.splits)

end
