(* ===== verification/Observer_Spec.thy ===== *)
theory Observer_Spec
  imports Observer_System
begin

text \<open>
  The contract of the observer, stated without channels, goroutines or
  clocks: an aggregator that accepts results on two queues (normal and
  oversized) and now and then reports a buffer. A report may only continue,
  per queue, the sequence of results already reported, with results already
  accepted: nothing reported twice, nothing reported before it was accepted,
  and each queue reported in FIFO order. The abstraction of a system state
  keeps the accepted results (\<open>pushed\<close>) and the flushed buffers; every step of
  the program is a step of the aggregator or leaves its abstraction alone.
\<close>

record 'r aggregator =
  accepted :: "bool \<Rightarrow> 'r list"
  reported :: "'r ObserverBuffer list"

definition reportable :: "'r aggregator \<Rightarrow> 'r ObserverBuffer \<Rightarrow> bool" where
  "reportable a b \<longleftrightarrow>
     (\<forall>ov. \<exists>rest. accepted a ov = tagged ov (concat (reported a) @ b) @ rest)"

inductive agg_step :: "'r aggregator \<Rightarrow> 'r aggregator \<Rightarrow> bool" where
  accept: "agg_step a (a\<lparr>accepted := (accepted a)(ov := accepted a ov @ [r])\<rparr>)"
| report: "reportable a b \<Longrightarrow> agg_step a (a\<lparr>reported := reported a @ [b]\<rparr>)"

definition agg_of :: "'r system \<Rightarrow> 'r aggregator" where
  "agg_of s = \<lparr>accepted = pushed s, reported = flushed (effects s)\<rparr>"

text \<open>What the contract keeps: reported results form, per queue, a prefix of
  the accepted ones.\<close>

definition agg_inv :: "'r aggregator \<Rightarrow> bool" where
  "agg_inv a \<longleftrightarrow> (\<forall>ov. \<exists>rest. accepted a ov = tagged ov (concat (reported a)) @ rest)"

lemma agg_step_inv: "agg_step a a' \<Longrightarrow> agg_inv a \<Longrightarrow> agg_inv a'"
proof (induction rule: agg_step.induct)
  case (accept a ov r)
  show ?case unfolding agg_inv_def
  proof
    fix ov'
    from accept obtain rest where "accepted a ov' = tagged ov' (concat (reported a)) @ rest"
      by (auto simp: agg_inv_def)
    then show "\<exists>rest. accepted (a\<lparr>accepted := (accepted a)(ov := accepted a ov @ [r])\<rparr>) ov' =
                 tagged ov' (concat (reported (a\<lparr>accepted := (accepted a)(ov := accepted a ov @ [r])\<rparr>))) @ rest"
      by (cases "ov' = ov") auto
  qed
next
  case (report a b)
  then show ?case by (simp add: agg_inv_def reportable_def)
qed

section \<open>Refinement\<close>

lemma reportable_of_accounted:
  assumes "accounting_inv s'" and "pushed s' = accepted a"
    and "flushed (effects s') = reported a @ [b]"
  shows "reportable a b"
  using assms by (auto simp: accounting_inv_def accounted_def reportable_def)

lemma flushed_grows_by_one:
  assumes "loop_iteration ob c now ls e = Some (ob', it, e')"
  shows "flushed e' = flushed e \<or> (\<exists>b. flushed e' = flushed e @ [b])"
proof -
  obtain new where new: "flushed e' = flushed e @ new"
    using loop_iteration_sent [OF assms] by blast
  show ?thesis
  proof (cases it)
    case (Continue ls')
    with loop_iteration_deadline_check [of ob c now ls e ob' ls' e'] assms new
    have "length new \<le> 1" by (simp split: if_splits)
    with new show ?thesis by (cases new) auto
  next
    case Break
    with assms have "c = ExitSignal"
      by (cases rule: loop_iteration_Some_cases) (auto elim: sym [THEN next_select_Continue])
    with assms show ?thesis by auto
  qed
qed

lemma step_flushed_grows_by_one:
  assumes "step s s'"
  shows "flushed (effects s') = flushed (effects s) \<or>
         (\<exists>b. flushed (effects s') = flushed (effects s) @ [b])"
  using assms
proof cases
  case (loop_select i ls c ob' ls' e')
  then show ?thesis using flushed_grows_by_one [OF loop_select(4)] by simp
next
  case (loop_exit i ls ob' e')
  then show ?thesis using flushed_grows_by_one [OF loop_exit(5)] by simp
qed (auto simp: Start_def Stop_def)

lemma step_pushed_accept:
  assumes "step s s'"
  shows "pushed s' = pushed s \<or> (\<exists>ov r. pushed s' = (pushed s)(ov := pushed s ov @ [r]) \<and>
                                        flushed (effects s') = flushed (effects s))"
  using assms by cases (auto simp: Start_def Stop_def)

text \<open>One step of the program is a step of the aggregator or a stutter.\<close>

lemma step_refines:
  assumes "reach sc t ri t0 s" and "step s s'"
  shows "agg_of s' = agg_of s \<or> agg_step (agg_of s) (agg_of s')"
  using step_pushed_accept [OF assms(2)]
proof
  assume p: "pushed s' = pushed s"
  from step_flushed_grows_by_one [OF assms(2)] show ?thesis
  proof
    assume "flushed (effects s') = flushed (effects s)"
    with p show ?thesis by (simp add: agg_of_def)
  next
    assume "\<exists>b. flushed (effects s') = flushed (effects s) @ [b]"
    then obtain b where b: "flushed (effects s') = flushed (effects s) @ [b]" by blast
    have "accounting_inv s'" using reach_accounting_inv [OF reach.trans [OF assms]] .
    with p b have "reportable (agg_of s) b"
      by (intro reportable_of_accounted [of s']) (simp_all add: agg_of_def)
    then have "agg_step (agg_of s) ((agg_of s)\<lparr>reported := reported (agg_of s) @ [b]\<rparr>)"
      by (rule agg_step.report)
    with p b show ?thesis by (simp add: agg_of_def)
  qed
next
  assume "\<exists>ov r. pushed s' = (pushed s)(ov := pushed s ov @ [r]) \<and>
                 flushed (effects s') = flushed (effects s)"
  then obtain ov r where a: "pushed s' = (pushed s)(ov := pushed s ov @ [r])"
    and f: "flushed (effects s') = flushed (effects s)" by blast
  have "agg_step (agg_of s) ((agg_of s)\<lparr>accepted := (accepted (agg_of s))(ov := accepted (agg_of s) ov @ [r])\<rparr>)"
    by (rule agg_step.accept)
  with a f show ?thesis by (simp add: agg_of_def)
qed

section \<open>Properties of the contract\<close>

text \<open>C18. Refinement: the abstraction of every reachable state of the
  observer is reachable in the aggregator contract from the empty aggregator;
  so every flush reports, per queue, the next accepted results in FIFO order,
  none twice and none not yet accepted.\<close>

theorem reach_refines_aggregator:
  assumes "reach sc t ri t0 s"
  shows "agg_step\<^sup>*\<^sup>* \<lparr>accepted = (\<lambda>_. []), reported = []\<rparr> (agg_of s)"
  using assms
proof (induction rule: reach.induct)
  case init
  then show ?case by (simp add: agg_of_def sys_init_def)
next
  case (trans s s')
  from step_refines [OF trans.hyps] trans.IH show ?case
    by (auto intro: rtranclp.rtrancl_into_rtrancl)
qed

theorem reach_refines_aggregator_witness:
  "reach True 100 1000 0 ex_written \<and>
   agg_step\<^sup>*\<^sup>* \<lparr>accepted = (\<lambda>_. []), reported = []\<rparr> (agg_of ex_written) \<and>
   accepted (agg_of ex_written) False = [7]"
proof -
  have "accepted (agg_of ex_written) False = [7]"
    by (simp add: agg_of_def ex_written_def ex_looping_def ex_started_def ex_new_def sys_init_def
                  Start_def)
  with reach_refines_aggregator [OF reach_ex_written] reach_ex_written show ?thesis by blast
qed

end
