(* ===== verification/Observer_Alias.thy ===== *)
theory Observer_Alias
  imports Observer_Loop
begin

text \<open>
  The loop passes \<open>&buffer\<close> to \<open>Send\<close> (lines 69 and 85). The variable
  \<open>buffer\<close> therefore escapes to the heap, and the two later writes to it,
  \<open>buffer.Append(...)\<close> (lines 75, 77) and \<open>buffer = models.ObserverBuffer{}\<close>
  (line 89), write the same heap cell the sink was given. This theory models
  the loop with that cell explicit: a store from addresses to buffers, the
  variable at \<open>buffer_addr\<close>, and a sink that keeps the pointers it receives.
  The log line keeps a value (\<open>buffer.String()\<close> is computed at the call).
  The heap model agrees with \<open>loop_iteration\<close> on deadlines, timers, the
  buffer and the log; what it adds is what a sink that keeps its pointer sees
  later.
\<close>

type_synonym addr = nat

definition buffer_addr :: addr where
  "buffer_addr = 0"

record 'r heap_loop =
  hl_reportTime :: instant
  hl_timer :: instant
  heap :: "addr \<Rightarrow> 'r ObserverBuffer"

record 'r ref_outputs =
  ref_logs :: "'r log_entry list"
  sent_refs :: "addr list"

text \<open>The flush with \<open>Send(&buffer)\<close>: the log gets the rendered value, the sink
  the address.\<close>

definition report_ref :: "bool \<Rightarrow> 'r heap_loop \<Rightarrow> 'r ref_outputs \<Rightarrow> 'r ref_outputs" where
  "report_ref sc hl out =
     (let out' = out\<lparr>ref_logs := ref_logs out @ [InfoBuffer (heap hl buffer_addr)]\<rparr>
      in if sc then out'\<lparr>sent_refs := sent_refs out' @ [buffer_addr]\<rparr> else out')"

definition check_report_ref ::
  "'r Observer \<Rightarrow> instant \<Rightarrow> 'r heap_loop \<Rightarrow> 'r ref_outputs \<Rightarrow> 'r heap_loop \<times> 'r ref_outputs" where
  "check_report_ref ob now hl out =
     (if hl_reportTime hl < now
      then (hl\<lparr>hl_reportTime := now + reportInterval ob,
               heap := (heap hl)(buffer_addr := ObserverBuffer_empty)\<rparr>,
            report_ref (statsClient ob) hl out)
      else (hl, out))"

definition append_ref :: "'r heap_loop \<Rightarrow> 'r \<Rightarrow> bool \<Rightarrow> 'r heap_loop" where
  "append_ref hl r oversized =
     hl\<lparr>heap := (heap hl)(buffer_addr := ObserverBuffer_Append (heap hl buffer_addr) r oversized)\<rparr>"

definition next_select_ref ::
  "'r Observer \<Rightarrow> instant \<Rightarrow> 'r heap_loop \<Rightarrow> 'r ref_outputs \<Rightarrow> 'r heap_loop option \<times> 'r ref_outputs" where
  "next_select_ref ob now hl out =
     (case check_report_ref ob now hl out of
        (hl', out') \<Rightarrow> (Some (hl'\<lparr>hl_timer := now + timeout ob\<rparr>), out'))"

fun loop_iteration_ref ::
  "'r Observer \<Rightarrow> select_case \<Rightarrow> instant \<Rightarrow> 'r heap_loop \<Rightarrow> 'r ref_outputs \<Rightarrow>
   ('r Observer \<times> 'r heap_loop option \<times> 'r ref_outputs) option" where
  "loop_iteration_ref ob ExitSignal now hl out =
     Some (ob, None,
           report_ref (statsClient ob) hl (out\<lparr>ref_logs := ref_logs out @ [WarnExitSignal]\<rparr>))"
| "loop_iteration_ref ob RecvTargetWrite now hl out =
     (case chan_recv (targetWriteChan ob) of
        None \<Rightarrow> None
      | Some (r, q) \<Rightarrow>
          Some (ob\<lparr>targetWriteChan := q\<rparr>, next_select_ref ob now (append_ref hl r False) out))"
| "loop_iteration_ref ob RecvTargetWriteOversized now hl out =
     (case chan_recv (targetWriteOversizedChan ob) of
        None \<Rightarrow> None
      | Some (r, q) \<Rightarrow>
          Some (ob\<lparr>targetWriteOversizedChan := q\<rparr>, next_select_ref ob now (append_ref hl r True) out))"
| "loop_iteration_ref ob TimeAfter now hl out =
     (if hl_timer hl \<le> now
      then Some (ob, next_select_ref ob now hl
                       (out\<lparr>ref_logs := ref_logs out @ [DebugTimedOut (timeout ob)]\<rparr>))
      else None)"

section \<open>Agreement with the value model\<close>

text \<open>The heap state and the value state agree when the cell holds the buffer
  and the deadlines agree; the outputs agree when the logs are equal and the
  sink holds one pointer per buffer sent.\<close>

definition loop_agrees :: "'r loop_state \<Rightarrow> 'r heap_loop \<Rightarrow> bool" where
  "loop_agrees ls hl \<longleftrightarrow>
     reportTime ls = hl_reportTime hl \<and> timer ls = hl_timer hl \<and> buffer ls = heap hl buffer_addr"

definition outputs_agree :: "'r outputs \<Rightarrow> 'r ref_outputs \<Rightarrow> bool" where
  "outputs_agree out rout \<longleftrightarrow>
     logs out = ref_logs rout \<and> sent_refs rout = replicate (length (sent out)) buffer_addr"

fun iteration_agrees :: "'r iteration \<Rightarrow> 'r heap_loop option \<Rightarrow> bool" where
  "iteration_agrees (Continue ls) (Some hl) = loop_agrees ls hl"
| "iteration_agrees Break None = True"
| "iteration_agrees _ _ = False"

definition result_agrees ::
  "'r Observer \<times> 'r iteration \<times> 'r outputs \<Rightarrow> 'r Observer \<times> 'r heap_loop option \<times> 'r ref_outputs \<Rightarrow> bool" where
  "result_agrees x y \<longleftrightarrow>
     fst x = fst y \<and> iteration_agrees (fst (snd x)) (fst (snd y)) \<and> outputs_agree (snd (snd x)) (snd (snd y))"

lemma report_ref_agrees:
  "loop_agrees ls hl \<Longrightarrow> outputs_agree out rout \<Longrightarrow>
   outputs_agree (report sc (buffer ls) out) (report_ref sc hl rout)"
  by (simp add: outputs_agree_def loop_agrees_def report_ref_def Let_def replicate_append_same)

lemma next_select_ref_agrees:
  assumes "loop_agrees ls hl" and "outputs_agree out rout"
  shows "iteration_agrees (fst (next_select ob now ls out)) (fst (next_select_ref ob now hl rout)) \<and>
         outputs_agree (snd (next_select ob now ls out)) (snd (next_select_ref ob now hl rout))"
  using assms report_ref_agrees [OF assms]
  by (simp add: next_select_def next_select_ref_def check_report_def check_report_ref_def
                loop_agrees_def ObserverBuffer_empty_def)

lemma loop_agrees_append:
  "loop_agrees ls hl \<Longrightarrow>
   loop_agrees (ls\<lparr>buffer := ObserverBuffer_Append (buffer ls) r ov\<rparr>) (append_ref hl r ov)"
  by (simp add: loop_agrees_def append_ref_def)

lemma outputs_agree_log:
  "outputs_agree out rout \<Longrightarrow>
   outputs_agree (log_line l out) (rout\<lparr>ref_logs := ref_logs rout @ [l]\<rparr>)"
  by (simp add: outputs_agree_def)

section \<open>Properties of the heap model\<close>

text \<open>The heap model of the loop computes what the value model computes:
  for every select case, both are ready or neither is, and then they agree on
  the observer, on whether the loop continues, on the deadline, the timer and
  the buffer (the cell's content), on the log, and the sink holds one pointer
  per buffer the value model sends.\<close>

lemma loop_iteration_ref_agrees:
  assumes "loop_agrees ls hl" and "outputs_agree out rout"
  shows "rel_option result_agrees (loop_iteration ob c now ls out) (loop_iteration_ref ob c now hl rout)"
proof (cases c)
  case ExitSignal
  from report_ref_agrees [OF assms(1) outputs_agree_log [OF assms(2)], of "statsClient ob" WarnExitSignal]
  show ?thesis using ExitSignal by (simp add: result_agrees_def log_line_def)
next
  case RecvTargetWrite
  show ?thesis
  proof (cases "targetWriteChan ob")
    case (Cons r q)
    from next_select_ref_agrees [OF loop_agrees_append [OF assms(1)] assms(2), of ob now r False]
    show ?thesis using RecvTargetWrite Cons by (simp add: result_agrees_def)
  qed (use RecvTargetWrite in simp)
next
  case RecvTargetWriteOversized
  show ?thesis
  proof (cases "targetWriteOversizedChan ob")
    case (Cons r q)
    from next_select_ref_agrees [OF loop_agrees_append [OF assms(1)] assms(2), of ob now r True]
    show ?thesis using RecvTargetWriteOversized Cons by (simp add: result_agrees_def)
  qed (use RecvTargetWriteOversized in simp)
next
  case TimeAfter
  from next_select_ref_agrees [OF assms(1) outputs_agree_log [OF assms(2)], of ob now "DebugTimedOut (timeout ob)"]
  show ?thesis using TimeAfter assms(1) by (auto simp: result_agrees_def loop_agrees_def log_line_def)
qed

definition ex_heap_loop :: "nat heap_loop" where
  "ex_heap_loop = \<lparr>hl_reportTime = 1000, hl_timer = 100, heap = (\<lambda>_. [])\<rparr>"

definition ex_ref_outputs :: "nat ref_outputs" where
  "ex_ref_outputs = \<lparr>ref_logs = [], sent_refs = []\<rparr>"

lemma loop_iteration_ref_agrees_witness:
  "loop_agrees (loop_start ex_observer 0) ex_heap_loop \<and> outputs_agree no_outputs ex_ref_outputs \<and>
   rel_option result_agrees (loop_iteration ex_observer RecvTargetWrite 1100 (loop_start ex_observer 0) no_outputs)
     (loop_iteration_ref ex_observer RecvTargetWrite 1100 ex_heap_loop ex_ref_outputs)"
proof -
  have h: "loop_agrees (loop_start ex_observer 0) ex_heap_loop" "outputs_agree no_outputs ex_ref_outputs"
    by (simp_all add: loop_agrees_def outputs_agree_def loop_start_def ex_heap_loop_def ex_ref_outputs_def
                      ex_observer_def New_def ObserverBuffer_empty_def buffer_addr_def)
  from loop_iteration_ref_agrees [OF h] h show ?thesis by blast
qed

text \<open>C23. The sink is handed an alias, not a snapshot: a result merged into
  the buffer after a flush shows through the pointer the sink received at that
  flush, while the logged summary of the flush does not contain it.\<close>

theorem sent_pointer_sees_later_results:
  "\<exists>ob1 hl1 rout1 ob2 hl2 rout2.
     loop_iteration_ref ex_observer RecvTargetWrite 1100 ex_heap_loop ex_ref_outputs = Some (ob1, Some hl1, rout1) \<and>
     loop_iteration_ref ob1 RecvTargetWriteOversized 1150 hl1 rout1 = Some (ob2, Some hl2, rout2) \<and>
     sent_refs rout2 = [buffer_addr] \<and> flushed_of (ref_logs rout2) = [[(1, False)]] \<and>
     heap hl2 (hd (sent_refs rout2)) = [(2, True)]"
  by (simp add: ex_observer_def New_def ex_heap_loop_def ex_ref_outputs_def next_select_ref_def
                check_report_ref_def report_ref_def append_ref_def ObserverBuffer_Append_def
                ObserverBuffer_empty_def)

end
