(* ===== verification/Observer_Schedule.thy ===== *)
theory Observer_Schedule
  imports Observer_Trace
begin

text \<open>
  When the deadline flushes of the loop happen. The loop re-arms its deadline
  from the instant of the flush (\<open>reportTime = time.Now().Add(o.reportInterval)\<close>,
  line 88), not from the previous deadline: the schedule floats. This theory
  records, for a schedule of \<open>select\<close> cases at given instants, the instants
  at which the deadline check flushed (the final flush of the exit case is
  not one of them), and shows that each is past the deadline the loop had
  when the schedule began, and that two of them are always more than one
  report interval apart. Nothing here assumes the instants are increasing:
  the spacing comes from the re-arming alone. The second part states the same
  for runs of the whole system, given as events of \<open>Observer_Trace\<close>, where a
  loop may be stopped and a new one started between two flushes.
\<close>

fun deadline_flushes ::
  "'r Observer \<Rightarrow> (select_case \<times> instant) list \<Rightarrow> 'r loop_state \<Rightarrow> 'r outputs \<Rightarrow> instant list" where
  "deadline_flushes ob [] ls out = []"
| "deadline_flushes ob ((c, now) # cs) ls out =
     (case loop_iteration ob c now ls out of
        Some (ob', Continue ls', out') \<Rightarrow>
          (if length (flushed out) < length (flushed out') then [now] else []) @
          deadline_flushes ob' cs ls' out'
      | _ \<Rightarrow> [])"

lemma deadline_flushes_Cons:
  assumes "loop_iteration ob c now ls out = Some (ob', Continue ls', out')"
  shows "deadline_flushes ob ((c, now) # cs) ls out =
           (if reportTime ls < now then [now] else []) @ deadline_flushes ob' cs ls' out'"
  using assms loop_iteration_deadline_check [OF assms] by simp

lemma deadline_flushes_Cons_stop:
  "(\<nexists>ob' ls' out'. loop_iteration ob c now ls out = Some (ob', Continue ls', out')) \<Longrightarrow>
   deadline_flushes ob ((c, now) # cs) ls out = []"
  by (auto split: option.splits iteration.splits)

lemma deadline_flushes_past_deadline:
  "0 \<le> reportInterval ob \<Longrightarrow> t \<in> set (deadline_flushes ob cs ls out) \<Longrightarrow> reportTime ls < t"
proof (induction ob cs ls out rule: deadline_flushes.induct)
  case (2 ob c now cs ls out)
  show ?case
  proof (cases "\<exists>ob' ls' out'. loop_iteration ob c now ls out = Some (ob', Continue ls', out')")
    case True
    then obtain ob' ls' out' where it: "loop_iteration ob c now ls out = Some (ob', Continue ls', out')"
      by blast
    note dc = loop_iteration_deadline_check [OF it] and cf = loop_iteration_config [OF it]
    note IH = "2.IH" [OF it refl refl refl]
    show ?thesis
    proof (cases "reportTime ls < now")
      case True
      with "2.prems" dc cf IH have "t = now \<or> now + reportInterval ob < t"
        unfolding deadline_flushes_Cons [OF it] by auto
      with True "2.prems"(1) show ?thesis by auto
    next
      case False
      with "2.prems" dc cf IH show ?thesis
        unfolding deadline_flushes_Cons [OF it] by simp
    qed
  next
    case False
    with "2.prems" show ?thesis unfolding deadline_flushes_Cons_stop [OF False] by simp
  qed
qed simp

text \<open>C24. The schedule floats and never drifts backwards: with a non-negative
  report interval, every deadline flush of the loop comes strictly after the
  deadline the loop had before it, and any two deadline flushes are more than
  one report interval apart, whatever the order and the instants of the
  \<open>select\<close> cases.\<close>

theorem deadline_flushes_floating:
  assumes "0 \<le> reportInterval ob"
  shows "(\<forall>t \<in> set (deadline_flushes ob cs ls out). reportTime ls < t) \<and>
         sorted_wrt (\<lambda>t t'. t + reportInterval ob < t') (deadline_flushes ob cs ls out)"
  using assms
proof (induction ob cs ls out rule: deadline_flushes.induct)
  case (2 ob c now cs ls out)
  show ?case
  proof (cases "\<exists>ob' ls' out'. loop_iteration ob c now ls out = Some (ob', Continue ls', out')")
    case True
    then obtain ob' ls' out' where it: "loop_iteration ob c now ls out = Some (ob', Continue ls', out')"
      by blast
    note dc = loop_iteration_deadline_check [OF it] and cf = loop_iteration_config [OF it]
    note IH = "2.IH" [OF it refl refl refl]
    have later: "t \<in> set (deadline_flushes ob' cs ls' out') \<Longrightarrow> reportTime ls' < t" for t
      using deadline_flushes_past_deadline [of ob' t cs ls' out'] "2.prems" cf by simp
    show ?thesis
    proof (cases "reportTime ls < now")
      case True
      with "2.prems" dc cf IH later show ?thesis
        unfolding deadline_flushes_Cons [OF it] by auto
    next
      case False
      with "2.prems" dc cf IH show ?thesis
        unfolding deadline_flushes_Cons [OF it] by simp
    qed
  next
    case False
    then show ?thesis unfolding deadline_flushes_Cons_stop [OF False] by simp
  qed
qed simp

section \<open>The schedule across the whole system\<close>

text \<open>The same for a run of the whole system, given as a list of events of the
  scheduler of \<open>Observer_Trace\<close>: the instants of the deadline flushes are the
  clock values at which a \<open>select\<close> step of the goroutine flushed. Between two
  of them the run may tick, push, stop the observer and start it again.\<close>

fun is_select :: "'r event \<Rightarrow> bool" where
  "is_select (Select c) = True"
| "is_select _ = False"

fun system_deadline_flushes :: "'r system \<Rightarrow> 'r event list \<Rightarrow> instant list" where
  "system_deadline_flushes s [] = []"
| "system_deadline_flushes s (e # es) =
     (case exec_event s e of
        None \<Rightarrow> []
      | Some s' \<Rightarrow>
          (if is_select e \<and> length (flushed (effects s)) < length (flushed (effects s'))
           then [clock s] else []) @ system_deadline_flushes s' es)"

text \<open>No deadline of a loop is earlier than one interval after instant \<open>T\<close>,
  and the clock is at or past \<open>T\<close>.\<close>

definition deadlines_after :: "instant \<Rightarrow> 'r system \<Rightarrow> bool" where
  "deadlines_after T s \<longleftrightarrow>
     T \<le> clock s \<and> (\<forall>ls. Looping ls \<in> set (loops s) \<longrightarrow> T + reportInterval (obs s) \<le> reportTime ls)"

lemma select_deadlines_after:
  assumes "loop_iteration (obs s) c (clock s) ls (effects s) = Some (ob', Continue ls', e')"
    and "loops s = [Looping ls]" and "0 \<le> reportInterval (obs s)" and "deadlines_after T s"
  shows "deadlines_after T (s\<lparr>obs := ob', loops := [Looping ls'], effects := e'\<rparr>) \<and>
         (length (flushed (effects s)) < length (flushed e') \<longrightarrow>
            T + reportInterval (obs s) < clock s \<and>
            deadlines_after (clock s) (s\<lparr>obs := ob', loops := [Looping ls'], effects := e'\<rparr>))"
proof -
  note dc = loop_iteration_deadline_check [OF assms(1)] and cf = loop_iteration_config [OF assms(1)]
  have rt: "T + reportInterval (obs s) \<le> reportTime ls"
    using assms(2,4) by (simp add: deadlines_after_def)
  show ?thesis
  proof (cases "reportTime ls < clock s")
    case True
    with dc cf rt assms(3,4) show ?thesis by (auto simp: deadlines_after_def)
  next
    case False
    with dc cf rt assms(4) show ?thesis by (auto simp: deadlines_after_def)
  qed
qed

lemma exec_event_deadlines_after:
  assumes "exec_event s e = Some s'" and "0 \<le> reportInterval (obs s)" and "deadlines_after T s"
  shows "deadlines_after T s' \<and> reportInterval (obs s') = reportInterval (obs s) \<and>
         (is_select e \<and> length (flushed (effects s)) < length (flushed (effects s')) \<longrightarrow>
            T + reportInterval (obs s) < clock s \<and> deadlines_after (clock s) s')"
proof (cases e)
  case (Select c)
  with assms(1) obtain ls ob' ls' e' where l: "loops s = [Looping ls]"
    and it: "loop_iteration (obs s) c (clock s) ls (effects s) = Some (ob', Continue ls', e')"
    and s': "s' = s\<lparr>obs := ob', loops := [Looping ls'], effects := e'\<rparr>"
    by (auto split: list.splits goroutine.splits option.splits iteration.splits)
  from select_deadlines_after [OF it l assms(2,3)] loop_iteration_config [OF it] Select s'
  show ?thesis by simp
next
  case ExitLoop
  with assms(1) obtain ls ob' e' where it: "loop_iteration (obs s) ExitSignal (clock s) ls (effects s) = Some (ob', Break, e')"
    and s': "s' = s\<lparr>obs := ob', loops := [Exiting], caller := StopAwaitingDone, effects := e'\<rparr>"
    by (auto split: list.splits goroutine.splits option.splits iteration.splits if_splits)
  from it have "reportInterval ob' = reportInterval (obs s)" by (auto dest: loop_iteration_config)
  with ExitLoop s' assms(3) show ?thesis by (simp add: deadlines_after_def)
qed (use assms in \<open>auto simp: deadlines_after_def producer_simps loop_start_def Start_def Stop_def
                    split: if_splits list.splits goroutine.splits\<close>)

lemma system_deadline_flushes_after:
  "0 \<le> reportInterval (obs s) \<Longrightarrow> deadlines_after T s \<Longrightarrow>
   (\<forall>x \<in> set (system_deadline_flushes s es). T + reportInterval (obs s) < x) \<and>
   sorted_wrt (\<lambda>x y. x + reportInterval (obs s) < y) (system_deadline_flushes s es)"
proof (induction s es arbitrary: T rule: system_deadline_flushes.induct)
  case (2 s e es)
  show ?case
  proof (cases "exec_event s e")
    case (Some s')
    note ev = exec_event_deadlines_after [OF Some "2.prems"]
    have ri: "0 \<le> reportInterval (obs s')" using ev "2.prems"(1) by simp
    note IH = "2.IH" [OF Some ri]
    show ?thesis
    proof (cases "is_select e \<and> length (flushed (effects s)) < length (flushed (effects s'))")
      case True
      with ev IH [of T] IH [of "clock s"] Some show ?thesis by auto
    next
      case False
      with ev IH [of T] Some show ?thesis by auto
    qed
  qed simp
qed simp

text \<open>C33. Across the whole system, the floating schedule never drifts
  backwards: in every run from a fresh observer with a non-negative report
  interval, whatever the ticks, pushes, stops and restarts in between, every
  deadline flush comes more than one interval after the start, and any two
  deadline flushes are more than one report interval apart.\<close>

theorem system_deadline_flushes_floating:
  assumes "0 \<le> ri"
  shows "(\<forall>x \<in> set (system_deadline_flushes (sys_init sc t ri t0) es). t0 + ri < x) \<and>
         sorted_wrt (\<lambda>x y. x + ri < y) (system_deadline_flushes (sys_init sc t ri t0) es)"
proof -
  have "deadlines_after t0 (sys_init sc t ri t0 :: 'a system)"
    by (simp add: deadlines_after_def sys_init_def)
  with system_deadline_flushes_after [of "sys_init sc t ri t0 :: 'a system" t0 es] assms
  show ?thesis by (simp add: sys_init_def New_def)
qed

definition ex_restart_events :: "nat event list" where
  "ex_restart_events =
     [CallStart, Enter, Tick 1100, Select TimeAfter, CallStop, ExitLoop, ClearFlag, StopDone,
      CallStart, Enter, Tick 1001, Select TimeAfter]"

theorem system_deadline_flushes_floating_witness:
  "(0 :: int) \<le> 1000 \<and>
   system_deadline_flushes (sys_init True 100 1000 0) ex_restart_events = [1100, 2101] \<and>
   (0 :: int) + 1000 < 1100 \<and> (1100 :: int) + 1000 < 2101"
proof -
  have run: "system_deadline_flushes (sys_init True 100 1000 0) ex_restart_events = [1100, 2101]"
    by (simp add: ex_restart_events_def sys_init_def New_def Start_def Stop_def loop_start_def
                  next_select_def check_report_def ObserverBuffer_empty_def report_def log_line_def
                  StatsReceiver_Send_def no_outputs_def)
  from system_deadline_flushes_floating [of 1000 True 100 0 ex_restart_events] run show ?thesis by simp
qed

definition ex_schedule :: "(select_case \<times> instant) list" where
  "ex_schedule = [(RecvTargetWrite, 1100), (TimeAfter, 1200), (RecvTargetWriteOversized, 2101)]"

theorem deadline_flushes_floating_witness:
  "0 \<le> reportInterval ex_observer \<and>
   deadline_flushes ex_observer ex_schedule (loop_start ex_observer 0) no_outputs = [1100, 2101] \<and>
   reportTime (loop_start ex_observer 0) < 1100 \<and> 1100 + reportInterval ex_observer < 2101"
proof -
  have ri: "0 \<le> reportInterval ex_observer" by (simp add: ex_observer_def New_def)
  have run: "deadline_flushes ex_observer ex_schedule (loop_start ex_observer 0) no_outputs = [1100, 2101]"
    by (simp add: ex_schedule_def ex_observer_def New_def loop_start_def next_select_def
                  check_report_def ObserverBuffer_Append_def ObserverBuffer_empty_def)
  from deadline_flushes_floating [OF ri, of ex_schedule "loop_start ex_observer 0" no_outputs] ri run
  show ?thesis by simp
qed

end
