(* ===== verification/Observer_Drain.thy ===== *)
theory Observer_Drain
  imports Observer_System "HOL-Library.While_Combinator"
begin

text \<open>
  The loop working off a backlog. While a result is queued on either channel,
  the \<open>select\<close> of \<open>ObserverLoop\<close> (lines 62--80) has a ready receive case;
  this theory runs the loop, as a \<open>while_option\<close>, on the schedule that takes
  a ready receive every time (the normal channel first, one of the choices
  Go's \<open>select\<close> may make), with the clock advancing by a fixed duration per
  iteration. The lemmas show that the loop receives exactly one result per
  receive iteration, that the drain terminates on every input, that it
  empties both channels, and that results pushed by the producers before
  it come out of it, per channel, in the order they were pushed.
\<close>

section \<open>Producers, the backlog, the drain\<close>

text \<open>A sequence of producer calls: \<open>TargetWrite\<close> for a result tagged normal,
  \<open>TargetWriteOversized\<close> for one tagged oversized; \<open>None\<close> when one of them
  would block on a full channel.\<close>

fun push_all :: "'r Observer \<Rightarrow> ('r \<times> bool) list \<Rightarrow> 'r Observer option" where
  "push_all ob [] = Some ob"
| "push_all ob ((r, ov) # ps) =
     (case (if ov then TargetWriteOversized ob r else TargetWrite ob r) of
        None \<Rightarrow> None
      | Some ob' \<Rightarrow> push_all ob' ps)"

definition backlog :: "'r Observer \<Rightarrow> nat" where
  "backlog ob = length (targetWriteChan ob) + length (targetWriteOversizedChan ob)"

definition ready_recv :: "'r Observer \<Rightarrow> select_case" where
  "ready_recv ob = (if targetWriteChan ob = [] then RecvTargetWriteOversized else RecvTargetWrite)"

record 'r drain_state =
  dr_obs :: "'r Observer"
  dr_loop :: "'r loop_state"
  dr_out :: "'r outputs"
  dr_now :: instant

definition drain_step :: "duration \<Rightarrow> 'r drain_state \<Rightarrow> 'r drain_state" where
  "drain_step d st =
     (case loop_iteration (dr_obs st) (ready_recv (dr_obs st)) (dr_now st) (dr_loop st) (dr_out st) of
        Some (ob', Continue ls', out') \<Rightarrow>
          \<lparr>dr_obs = ob', dr_loop = ls', dr_out = out', dr_now = dr_now st + d\<rparr>
      | _ \<Rightarrow> st)"

definition drain :: "duration \<Rightarrow> 'r drain_state \<Rightarrow> 'r drain_state option" where
  "drain d = while_option (\<lambda>st. 0 < backlog (dr_obs st)) (drain_step d)"

definition drain_accounted :: "bool \<Rightarrow> 'r drain_state \<Rightarrow> 'r list" where
  "drain_accounted ov st = accounted ov (dr_obs st) (buffer (dr_loop st)) (dr_out st)"

section \<open>One receive\<close>

definition is_recv :: "select_case \<Rightarrow> bool" where
  "is_recv c \<longleftrightarrow> c = RecvTargetWrite \<or> c = RecvTargetWriteOversized"

lemma loop_iteration_recv_backlog:
  assumes "loop_iteration ob c now ls out = Some (ob', it, out')" and "is_recv c"
  shows "Suc (backlog ob') = backlog ob \<and> (\<exists>ls'. it = Continue ls')"
  using assms(1)
proof (cases rule: loop_iteration_Some_cases)
  case (recv r q)
  then show ?thesis by (auto simp: backlog_def elim: sym [THEN next_select_Continue])
next
  case (recv_oversized r q)
  then show ?thesis by (auto simp: backlog_def elim: sym [THEN next_select_Continue])
qed (use assms(2) in \<open>simp_all add: is_recv_def\<close>)

lemma loop_iteration_ready_recv:
  assumes "0 < backlog ob"
  shows "\<exists>ob' ls' out'. loop_iteration ob (ready_recv ob) now ls out = Some (ob', Continue ls', out')"
proof -
  obtain it out' where ns: "next_select ob now (ls\<lparr>buffer := ObserverBuffer_Append (buffer ls)
      (hd (if targetWriteChan ob = [] then targetWriteOversizedChan ob else targetWriteChan ob))
      (targetWriteChan ob = [])\<rparr>) out = (it, out')"
    by fastforce
  then obtain ls' where "it = Continue ls'" by (rule next_select_Continue)
  with ns assms show ?thesis
    by (cases "targetWriteChan ob"; cases "targetWriteOversizedChan ob")
       (auto simp: ready_recv_def backlog_def)
qed

lemma drain_step_progress:
  assumes "0 < backlog (dr_obs st)"
  shows "backlog (dr_obs (drain_step d st)) < backlog (dr_obs st) \<and>
         drain_accounted ov (drain_step d st) = drain_accounted ov st"
proof -
  obtain ob' ls' out' where it:
    "loop_iteration (dr_obs st) (ready_recv (dr_obs st)) (dr_now st) (dr_loop st) (dr_out st) =
     Some (ob', Continue ls', out')"
    using loop_iteration_ready_recv [OF assms] by blast
  have "is_recv (ready_recv (dr_obs st))" by (simp add: is_recv_def ready_recv_def)
  with loop_iteration_recv_backlog [OF it] loop_iteration_accounted [OF it, of ov] it show ?thesis
    by (simp add: drain_step_def drain_accounted_def)
qed

section \<open>Pushing\<close>

lemma push_all_chan:
  "push_all ob ps = Some ob' \<Longrightarrow> chan_of ov ob' = chan_of ov ob @ tagged ov ps"
proof (induction ob ps rule: push_all.induct)
  case (2 ob r ov' ps)
  then show ?case
    by (auto simp: chan_of_def TargetWrite_Some_iff TargetWriteOversized_Some_iff
             split: option.splits if_splits)
qed simp

lemma push_all_Some:
  "(\<And>ov. length (chan_of ov ob) + length (tagged ov ps) \<le> result_chan_capacity) \<Longrightarrow>
   \<exists>ob'. push_all ob ps = Some ob'"
proof (induction ps arbitrary: ob)
  case (Cons p ps)
  obtain r ov where p: "p = (r, ov)" by fastforce
  have room: "length (chan_of ov ob) < result_chan_capacity"
    using Cons.prems [of ov] p by simp
  define ob1 where "ob1 = (if ov then ob\<lparr>targetWriteOversizedChan := targetWriteOversizedChan ob @ [r]\<rparr>
                          else ob\<lparr>targetWriteChan := targetWriteChan ob @ [r]\<rparr>)"
  have push: "(if ov then TargetWriteOversized ob r else TargetWrite ob r) = Some ob1"
    using room by (cases ov) (simp_all add: ob1_def chan_of_def TargetWrite_Some_iff TargetWriteOversized_Some_iff)
  have "length (chan_of ov' ob1) + length (tagged ov' ps) \<le> result_chan_capacity" for ov'
    using Cons.prems [of ov'] p by (auto simp: ob1_def chan_of_def)
  with Cons.IH [of ob1] push p show ?case by simp
qed simp

lemma push_all_bounded:
  "push_all ob ps = Some ob' \<Longrightarrow> chans_bounded ob \<Longrightarrow> chans_bounded ob'"
proof (induction ob ps rule: push_all.induct)
  case (2 ob r ov ps)
  then show ?case
    by (auto simp: chans_bounded_def TargetWrite_Some_iff TargetWriteOversized_Some_iff
             split: option.splits if_splits)
qed simp

text \<open>C34. When producers block: from channels within their capacity, a
  sequence of producer calls (with no receive in between) blocks exactly when,
  for one of the two channels, the results already queued plus those pushed
  onto it exceed the capacity of 1000; otherwise every call returns.\<close>

theorem push_all_blocks_iff:
  assumes "chans_bounded ob"
  shows "push_all ob ps = None \<longleftrightarrow>
         (\<exists>ov. result_chan_capacity < length (chan_of ov ob) + length (tagged ov ps))"
proof
  assume "push_all ob ps = None"
  then show "\<exists>ov. result_chan_capacity < length (chan_of ov ob) + length (tagged ov ps)"
    using push_all_Some [of ob ps] by (metis not_le option.distinct(1))
next
  assume "\<exists>ov. result_chan_capacity < length (chan_of ov ob) + length (tagged ov ps)"
  then obtain ov where over: "result_chan_capacity < length (chan_of ov ob) + length (tagged ov ps)" ..
  show "push_all ob ps = None"
  proof (rule ccontr)
    assume "push_all ob ps \<noteq> None"
    then obtain ob' where p: "push_all ob ps = Some ob'" by blast
    have "length (chan_of ov ob') \<le> result_chan_capacity"
      using push_all_bounded [OF p assms] by (simp add: chans_bounded_def chan_of_def)
    with push_all_chan [OF p, of ov] over show False by simp
  qed
qed

definition ex_full_observer :: "nat Observer" where
  "ex_full_observer = (New True 100 1000)\<lparr>targetWriteChan := replicate 1000 7\<rparr>"

theorem push_all_blocks_iff_witness:
  "chans_bounded ex_full_observer \<and> push_all ex_full_observer [(8, True), (9, False)] = None \<and>
   result_chan_capacity < length (chan_of False ex_full_observer) + length (tagged False [(8 :: nat, True), (9, False)])"
proof -
  have b: "chans_bounded ex_full_observer"
    by (simp add: chans_bounded_def ex_full_observer_def New_def result_chan_capacity_def)
  have "result_chan_capacity < length (chan_of False ex_full_observer) + length (tagged False [(8 :: nat, True), (9, False)])"
    by (simp add: chan_of_def ex_full_observer_def New_def result_chan_capacity_def)
  with push_all_blocks_iff [OF b, of "[(8, True), (9, False)]"] b show ?thesis by blast
qed

section \<open>The drain terminates and empties the channels\<close>

lemma drain_result:
  assumes "drain d st = Some st'"
  shows "backlog (dr_obs st') = 0 \<and> drain_accounted ov st' = drain_accounted ov st"
proof
  show "backlog (dr_obs st') = 0"
    using while_option_stop [OF assms [unfolded drain_def]] by simp
  show "drain_accounted ov st' = drain_accounted ov st"
    by (rule while_option_rule [OF _ assms [unfolded drain_def]]) (simp_all add: drain_step_progress)
qed

lemma backlog_zero_iff: "backlog ob = 0 \<longleftrightarrow> targetWriteChan ob = [] \<and> targetWriteOversizedChan ob = []"
  by (simp add: backlog_def)

text \<open>C25. Termination: the loop works off any backlog. On every state,
  whatever the channels hold and however the clock advances, the drain
  returns.\<close>

theorem drain_terminates: "\<exists>st'. drain d st = Some st'"
  unfolding drain_def
  by (rule measure_while_option_Some [where P = "\<lambda>_. True" and f = "\<lambda>st. backlog (dr_obs st)"])
     (simp_all add: drain_step_progress)

text \<open>C26. Round trip: results the producers push (within the channels' free
  capacity, so that no push blocks) come out of the loop. The pushes all
  succeed, the drain then empties both channels, and per channel the
  results reported or buffered after the drain are those reported or
  buffered before, then those already queued, then the pushed ones, in the
  order they were pushed.\<close>

theorem push_drain_roundtrip:
  assumes "\<forall>ov. length (chan_of ov ob) + length (tagged ov ps) \<le> result_chan_capacity"
  shows "\<exists>ob1 st'. push_all ob ps = Some ob1 \<and>
           drain d \<lparr>dr_obs = ob1, dr_loop = ls, dr_out = out, dr_now = now\<rparr> = Some st' \<and>
           targetWriteChan (dr_obs st') = [] \<and> targetWriteOversizedChan (dr_obs st') = [] \<and>
           (\<forall>ov. tagged ov (concat (flushed (dr_out st')) @ buffer (dr_loop st')) =
                 tagged ov (concat (flushed out) @ buffer ls) @ chan_of ov ob @ tagged ov ps)"
proof -
  obtain ob1 where push: "push_all ob ps = Some ob1"
    using push_all_Some assms by blast
  obtain st' where dr: "drain d \<lparr>dr_obs = ob1, dr_loop = ls, dr_out = out, dr_now = now\<rparr> = Some st'"
    using drain_terminates by blast
  have "tagged ov (concat (flushed (dr_out st')) @ buffer (dr_loop st')) =
        tagged ov (concat (flushed out) @ buffer ls) @ chan_of ov ob @ tagged ov ps" for ov
  proof -
    from drain_result [OF dr, of ov] have "backlog (dr_obs st') = 0" and
      acc: "drain_accounted ov st' = drain_accounted ov \<lparr>dr_obs = ob1, dr_loop = ls, dr_out = out, dr_now = now\<rparr>"
      by simp_all
    then have "chan_of ov (dr_obs st') = []" by (simp add: backlog_zero_iff chan_of_def)
    with acc push_all_chan [OF push, of ov] show ?thesis
      by (simp add: drain_accounted_def accounted_def)
  qed
  with push dr drain_result [OF dr] show ?thesis by (auto simp: backlog_zero_iff)
qed

definition ex_pushes :: "(nat \<times> bool) list" where
  "ex_pushes = [(3, False), (4, True), (5, False)]"

theorem push_drain_roundtrip_witness:
  "(\<forall>ov. length (chan_of ov ex_observer) + length (tagged ov ex_pushes) \<le> result_chan_capacity) \<and>
   (\<exists>ob1 st'. push_all ex_observer ex_pushes = Some ob1 \<and>
      drain 10 \<lparr>dr_obs = ob1, dr_loop = loop_start ex_observer 0, dr_out = no_outputs, dr_now = 0\<rparr> = Some st' \<and>
      tagged False (concat (flushed (dr_out st')) @ buffer (dr_loop st')) = [1, 3, 5] \<and>
      tagged True (concat (flushed (dr_out st')) @ buffer (dr_loop st')) = [2, 4])"
proof -
  have h: "\<forall>ov. length (chan_of ov ex_observer) + length (tagged ov ex_pushes) \<le> result_chan_capacity"
    by (simp add: all_bool_eq chan_of_def ex_observer_def New_def ex_pushes_def result_chan_capacity_def)
  have b: "buffer (loop_start ex_observer 0) = ([] :: (nat \<times> bool) list)"
    by (simp add: loop_start_def ObserverBuffer_empty_def)
  have c: "chan_of False ex_observer = [1]" "chan_of True ex_observer = [2]"
    by (simp_all add: chan_of_def ex_observer_def New_def)
  from push_drain_roundtrip [OF h, of 10 "loop_start ex_observer 0" no_outputs 0] h b c show ?thesis
    by (auto simp: ex_pushes_def)
qed

text \<open>Receiving is bounded by the backlog: with no producer running, any
  run of the loop that takes only receive cases takes exactly one queued
  result per iteration, so it has at most as many iterations as there were
  results queued.\<close>

theorem loop_run_recv_bounded:
  assumes "loop_run ob cs ls out = Some (ob', Continue ls', out')"
    and "\<forall>p \<in> set cs. is_recv (fst p)"
  shows "backlog ob' + length cs = backlog ob"
  using assms
proof (induction ob cs ls out rule: loop_run.induct)
  case (2 ob c now cs ls out)
  from "2.prems"(2) have rc: "is_recv c" by simp
  from "2.prems"(1) obtain ob1 it1 out1 where it1: "loop_iteration ob c now ls out = Some (ob1, it1, out1)"
    by (auto split: option.splits)
  from loop_iteration_recv_backlog [OF it1 rc] obtain ls1 where
    c1: "it1 = Continue ls1" and bl: "Suc (backlog ob1) = backlog ob" by blast
  from "2.prems"(1) it1 c1 have "loop_run ob1 cs ls1 out1 = Some (ob', Continue ls', out')" by simp
  with "2.IH" [OF it1 refl refl c1] "2.prems"(2) bl show ?case by simp
qed simp

theorem loop_run_recv_bounded_witness:
  "\<exists>ob' ls' out'. loop_run ex_observer [(RecvTargetWrite, 0), (RecvTargetWriteOversized, 10)]
                   (loop_start ex_observer 0) no_outputs = Some (ob', Continue ls', out') \<and>
                 (\<forall>p \<in> set [(RecvTargetWrite, 0 :: instant), (RecvTargetWriteOversized, 10)]. is_recv (fst p)) \<and>
                 backlog ob' = 0"
proof -
  have "\<exists>ob' ls' out'. loop_run ex_observer [(RecvTargetWrite, 0), (RecvTargetWriteOversized, 10)]
                (loop_start ex_observer 0) no_outputs = Some (ob', Continue ls', out')"
    by (simp add: ex_observer_def New_def loop_start_def next_select_def check_report_def)
  then obtain ob' ls' out' where run: "loop_run ex_observer [(RecvTargetWrite, 0), (RecvTargetWriteOversized, 10)]
                (loop_start ex_observer 0) no_outputs = Some (ob', Continue ls', out')"
    by blast
  have rc: "\<forall>p \<in> set [(RecvTargetWrite, 0 :: instant), (RecvTargetWriteOversized, 10)]. is_recv (fst p)"
    by (simp add: is_recv_def)
  have "backlog ex_observer = 2" by (simp add: backlog_def ex_observer_def New_def)
  with loop_run_recv_bounded [OF run rc] run rc show ?thesis by auto
qed

end
