(* ===== verification/Observer_Callers.thy ===== *)
theory Observer_Callers
  imports Observer_Trace
begin

text \<open>
  Several lifecycle callers. \<open>Observer_System\<close> has one caller of \<open>Start\<close> and
  \<open>Stop\<close>, as the specification requires (its section 5: concurrent calls are
  not safe without external serialization). Here any number of goroutines
  call \<open>Start\<close> (lines 48--94) and \<open>Stop\<close> (lines 96--102) concurrently, at the
  grain of the Go statements that touch shared state. \<open>Start\<close> is two steps:
  the check of the flag (line 50, with the warning of line 51 when it is
  set), and the setting of the flag with the launch of the goroutine (lines
  54--56); between them the caller is \<open>StartPassedCheck\<close>. Every other step
  of caller \<open>j\<close> is a step of the one-caller system in which \<open>j\<close> is the
  caller, so the observer, its goroutines, the producers and the clock behave
  exactly as in \<open>step\<close>, and the rendezvous on \<open>exitSignal\<close> and \<open>stopDone\<close>
  pair a goroutine with whichever caller is blocked there. With two callers
  \<open>isRunning\<close>, read by the callers and written by them and by the loop
  (line 72), no longer guards anything: two \<open>Start\<close>s can both pass the check
  and launch two loops, a \<open>Start\<close> can launch a second goroutine while the
  first is still shutting down, and a \<open>Stop\<close> can be left blocked on
  \<open>exitSignal\<close> and later stop a loop started after it.
\<close>

section \<open>Callers and their steps\<close>

record 'r msystem =
  msys :: "'r system"
  callers :: "caller_pc list"

text \<open>The system as seen by caller \<open>j\<close>, and the composite state after a step
  of that view. The \<open>caller\<close> field of \<open>msys\<close> itself is unused (kept \<open>Idle\<close>).\<close>

definition focus :: "nat \<Rightarrow> 'r msystem \<Rightarrow> 'r system" where
  "focus j m = (msys m)\<lparr>caller := callers m ! j\<rparr>"

definition unfocus :: "nat \<Rightarrow> 'r msystem \<Rightarrow> 'r system \<Rightarrow> 'r msystem" where
  "unfocus j m s' = \<lparr>msys = s'\<lparr>caller := Idle\<rparr>, callers = (callers m)[j := caller s']\<rparr>"

text \<open>\<open>Start\<close> of caller \<open>j\<close>, statement by statement: line 50 reads the flag and
  either warns and returns (lines 51--52) or goes on; lines 54--56 set the
  flag and launch the goroutine, and \<open>Start\<close> returns.\<close>

definition start_check :: "nat \<Rightarrow> 'r msystem \<Rightarrow> 'r msystem" where
  "start_check j m =
     (if isRunning (obs (msys m))
      then m\<lparr>msys := (msys m)\<lparr>effects := log_line WarnAlreadyRunning (effects (msys m))\<rparr>\<rparr>
      else m\<lparr>callers := (callers m)[j := StartPassedCheck]\<rparr>)"

definition start_launch :: "nat \<Rightarrow> 'r msystem \<Rightarrow> 'r msystem" where
  "start_launch j m =
     \<lparr>msys = (msys m)\<lparr>obs := (obs (msys m))\<lparr>isRunning := True\<rparr>, loops := loops (msys m) @ [Spawned]\<rparr>,
      callers = (callers m)[j := Idle]\<rparr>"

text \<open>The one-step \<open>Start\<close> of the serialized caller, which concurrent callers
  replace by the two steps above.\<close>

definition start_call :: "'r system \<Rightarrow> 'r system \<Rightarrow> bool" where
  "start_call s s' \<longleftrightarrow> caller s = Idle \<and> s' = Start s"

inductive mstep :: "'r msystem \<Rightarrow> 'r msystem \<Rightarrow> bool" where
  caller_step: "j < length (callers m) \<Longrightarrow> step (focus j m) s' \<Longrightarrow> \<not> start_call (focus j m) s' \<Longrightarrow>
    mstep m (unfocus j m s')"
| check_flag: "j < length (callers m) \<Longrightarrow> callers m ! j = Idle \<Longrightarrow> mstep m (start_check j m)"
| launch: "j < length (callers m) \<Longrightarrow> callers m ! j = StartPassedCheck \<Longrightarrow> mstep m (start_launch j m)"

definition msys_init :: "nat \<Rightarrow> bool \<Rightarrow> duration \<Rightarrow> duration \<Rightarrow> instant \<Rightarrow> 'r msystem" where
  "msys_init n sc t ri t0 = \<lparr>msys = sys_init sc t ri t0, callers = replicate n Idle\<rparr>"

inductive mreach :: "nat \<Rightarrow> bool \<Rightarrow> duration \<Rightarrow> duration \<Rightarrow> instant \<Rightarrow> 'r msystem \<Rightarrow> bool"
  for n sc t ri t0 where
  init: "mreach n sc t ri t0 (msys_init n sc t ri t0)"
| trans: "mreach n sc t ri t0 m \<Longrightarrow> mstep m m' \<Longrightarrow> mreach n sc t ri t0 m'"

text \<open>The executable counterpart: caller \<open>j\<close> performs one event; a
  \<open>CallStart\<close> performs the next statement of its \<open>Start\<close>.\<close>

fun mexec_event :: "'r msystem \<Rightarrow> nat \<times> 'r event \<Rightarrow> 'r msystem option" where
  "mexec_event m (j, e) =
     (if j < length (callers m) then
        (case e of
           CallStart \<Rightarrow>
             (case callers m ! j of
                Idle \<Rightarrow> Some (start_check j m)
              | StartPassedCheck \<Rightarrow> Some (start_launch j m)
              | _ \<Rightarrow> None)
         | _ \<Rightarrow> map_option (unfocus j m) (exec_event (focus j m) e))
      else None)"

fun run_mevents :: "'r msystem \<Rightarrow> (nat \<times> 'r event) list \<Rightarrow> 'r msystem option" where
  "run_mevents m [] = Some m"
| "run_mevents m (e # es) = (case mexec_event m e of None \<Rightarrow> None | Some m' \<Rightarrow> run_mevents m' es)"

section \<open>Basic facts\<close>

lemma mstep_length: "mstep m m' \<Longrightarrow> length (callers m') = length (callers m)"
  by (induction rule: mstep.induct) (simp_all add: unfocus_def start_check_def start_launch_def)

lemma mreach_length: "mreach n sc t ri t0 m \<Longrightarrow> length (callers m) = n"
  by (induction rule: mreach.induct) (simp_all add: msys_init_def mstep_length)

text \<open>A step that neither adds a goroutine nor logs the already-running
  warning is not the one-step \<open>Start\<close>.\<close>

lemma not_start_call:
  "length (loops s') \<le> length (loops s) \<Longrightarrow>
   logs (effects s') \<noteq> logs (effects s) @ [WarnAlreadyRunning] \<Longrightarrow> \<not> start_call s s'"
  by (auto simp: start_call_def Start_def log_line_def)

lemma loop_iteration_no_warning:
  assumes "loop_iteration ob c now ls out = Some (ob', it, out')"
  shows "logs out' \<noteq> logs out @ [WarnAlreadyRunning]"
  using assms
proof (cases rule: loop_iteration_Some_cases)
  case (recv r q)
  then show ?thesis by (auto elim!: sym [THEN next_select_Continue] simp: log_line_def split: if_splits)
next
  case (recv_oversized r q)
  then show ?thesis by (auto elim!: sym [THEN next_select_Continue] simp: log_line_def split: if_splits)
next
  case timed_out
  then show ?thesis by (auto elim!: sym [THEN next_select_Continue] simp: log_line_def split: if_splits)
qed (simp add: log_line_def)

lemma exec_event_not_start_call:
  assumes "exec_event s e = Some s'" and "e \<noteq> CallStart"
  shows "\<not> start_call s s'"
proof (rule not_start_call)
  show "length (loops s') \<le> length (loops s)" and
    "logs (effects s') \<noteq> logs (effects s) @ [WarnAlreadyRunning]"
    using assms loop_iteration_no_warning
    by (cases e; fastforce simp: Stop_def split: list.splits goroutine.splits option.splits
                              iteration.splits if_splits)+
qed

lemma mexec_event_mstep: "mexec_event m e = Some m' \<Longrightarrow> mstep m m'"
proof (cases e)
  case (Pair j ev)
  assume ex: "mexec_event m e = Some m'"
  show ?thesis
  proof (cases "ev = CallStart")
    case True
    with ex Pair show ?thesis
      by (auto split: if_splits caller_pc.splits intro: mstep.check_flag mstep.launch)
  next
    case False
    with ex Pair obtain s' where "j < length (callers m)" "exec_event (focus j m) ev = Some s'"
      "m' = unfocus j m s'"
      by (cases ev) (auto split: if_splits)
    with False show ?thesis
      by (metis mstep.caller_step exec_event_step exec_event_not_start_call)
  qed
qed

lemma run_mevents_mreach:
  "run_mevents m es = Some m' \<Longrightarrow> mreach n sc t ri t0 m \<Longrightarrow> mreach n sc t ri t0 m'"
proof (induction m es rule: run_mevents.induct)
  case (2 m e es)
  then obtain m1 where "mexec_event m e = Some m1" "run_mevents m1 es = Some m'"
    by (auto split: option.splits)
  with "2.IH" "2.prems"(2) show ?case by (auto intro: mreach.trans mexec_event_mstep)
qed simp

text \<open>A step of one goroutine among several, taken in the view of caller \<open>j\<close>
  (the executable scheduler handles one goroutine at a time).\<close>

lemma mstep_goroutine:
  assumes "j < length (callers m)" and "step (focus j m) s'"
    and "length (loops s') \<le> length (loops (msys m))"
    and "logs (effects s') \<noteq> logs (effects (msys m)) @ [WarnAlreadyRunning]"
  shows "mstep m (unfocus j m s')"
  using assms by (intro mstep.caller_step not_start_call) (simp_all add: focus_def)

text \<open>Steps of one goroutine among several, each taken in the view of caller
  \<open>j\<close>.\<close>

lemma mstep_loop_enter:
  assumes "j < length (callers m)" and "i < length (loops (msys m))" and "loops (msys m) ! i = Spawned"
  shows "mstep m (unfocus j m ((focus j m)\<lparr>loops := (loops (msys m))[i := Looping (loop_start (obs (msys m)) (clock (msys m)))]\<rparr>))"
proof (rule mstep_goroutine [OF assms(1)])
  show "step (focus j m) ((focus j m)\<lparr>loops := (loops (msys m))[i := Looping (loop_start (obs (msys m)) (clock (msys m)))]\<rparr>)"
    using step.loop_enter [of i "focus j m"] assms by (simp add: focus_def)
qed (simp_all add: focus_def)

lemma mstep_loop_exit:
  assumes "j < length (callers m)" and "callers m ! j = StopSendingExit"
    and "i < length (loops (msys m))" and "loops (msys m) ! i = Looping ls"
  shows "mstep m (unfocus j m ((focus j m)\<lparr>loops := (loops (msys m))[i := Exiting], caller := StopAwaitingDone,
            effects := report (statsClient (obs (msys m))) (buffer ls) (log_line WarnExitSignal (effects (msys m)))\<rparr>))"
proof (rule mstep_goroutine [OF assms(1)])
  show "step (focus j m) ((focus j m)\<lparr>loops := (loops (msys m))[i := Exiting], caller := StopAwaitingDone,
            effects := report (statsClient (obs (msys m))) (buffer ls) (log_line WarnExitSignal (effects (msys m)))\<rparr>)"
    using step.loop_exit [of i "focus j m" ls "obs (msys m)"] assms by (simp add: focus_def)
qed (simp_all add: log_line_def focus_def)

lemma mstep_loop_clear:
  assumes "j < length (callers m)" and "i < length (loops (msys m))" and "loops (msys m) ! i = Exiting"
  shows "mstep m (unfocus j m ((focus j m)\<lparr>obs := (obs (msys m))\<lparr>isRunning := False\<rparr>,
                                            loops := (loops (msys m))[i := SendingStopDone]\<rparr>))"
proof (rule mstep_goroutine [OF assms(1)])
  show "step (focus j m) ((focus j m)\<lparr>obs := (obs (msys m))\<lparr>isRunning := False\<rparr>,
                                      loops := (loops (msys m))[i := SendingStopDone]\<rparr>)"
    using step.loop_clear [of i "focus j m"] assms by (simp add: focus_def)
qed (simp_all add: focus_def)

lemma mstep_stop_done:
  assumes "j < length (callers m)" and "callers m ! j = StopAwaitingDone"
    and "i < length (loops (msys m))" and "loops (msys m) ! i = SendingStopDone"
  shows "mstep m (unfocus j m ((focus j m)\<lparr>loops := remove_nth i (loops (msys m)), caller := Idle\<rparr>))"
proof (rule mstep_goroutine [OF assms(1)])
  show "step (focus j m) ((focus j m)\<lparr>loops := remove_nth i (loops (msys m)), caller := Idle\<rparr>)"
    using step.stop_done [of i "focus j m"] assms by (simp add: focus_def)
qed (use assms(3) in \<open>simp_all add: focus_def\<close>)

lemma unfocus_focus_Idle:
  "caller (msys m) = Idle \<Longrightarrow> j < length (callers m) \<Longrightarrow> unfocus j m (focus j m) = m"
  by (cases m) (simp add: unfocus_def focus_def)

lemmas mrun_simps = msys_init_def sys_init_def New_def focus_def unfocus_def Start_def Stop_def
  loop_start_def start_check_def start_launch_def numeral_2_eq_2

section \<open>Properties of concurrent lifecycle calls\<close>



text \<open>C28. A \<open>Stop\<close> that is blocked sending on \<open>exitSignal\<close> stays blocked as long
  as no goroutine is in its loop: no step of the observer, of the producers,
  of the clock or of any caller releases it.\<close>

theorem stale_stop_stays_blocked:
  assumes "mstep m m'" and "j < length (callers m)" and "callers m ! j = StopSendingExit"
    and "\<forall>ls. Looping ls \<notin> set (loops (msys m))"
  shows "callers m' ! j = StopSendingExit"
  using assms(1)
proof cases
  case (caller_step j' s')
  show ?thesis
  proof (cases "j' = j")
    case False
    with caller_step assms(3) show ?thesis by (simp add: unfocus_def)
  next
    case True
    have "caller (focus j m) = StopSendingExit" using assms(3) by (simp add: focus_def)
    with caller_step(3) True assms(4) have "caller s' = StopSendingExit"
      by cases (auto simp: focus_def Start_def Stop_def dest: nth_mem)
    with caller_step True assms(2) show ?thesis by (simp add: unfocus_def)
  qed
next
  case (check_flag j')
  with assms(3) have "j' \<noteq> j" by auto
  with check_flag assms(3) show ?thesis by (simp add: start_check_def)
next
  case (launch j')
  with assms(3) have "j' \<noteq> j" by auto
  with launch assms(3) show ?thesis by (simp add: start_launch_def)
qed

definition ex_two_stops :: "(nat \<times> nat event) list" where
  "ex_two_stops = [(0, CallStart), (0, CallStart), (0, Enter), (0, CallStop), (1, CallStop),
                   (0, ExitLoop), (0, ClearFlag), (0, StopDone)]"

definition ex_stuck :: "nat msystem" where
  "ex_stuck = the (run_mevents (msys_init 2 True 100 1000 0) ex_two_stops)"

lemma run_ex_two_stops:
  "run_mevents (msys_init 2 True 100 1000 0) ex_two_stops = Some ex_stuck \<and>
   callers ex_stuck = [Idle, StopSendingExit] \<and> loops (msys ex_stuck) = [] \<and>
   \<not> isRunning (obs (msys ex_stuck))"
  by (simp add: ex_stuck_def ex_two_stops_def mrun_simps)

theorem stale_stop_stays_blocked_witness:
  "mreach 2 True 100 1000 0 ex_stuck \<and> mstep ex_stuck (the (mexec_event ex_stuck (0, Tick 5))) \<and>
   1 < length (callers ex_stuck) \<and> callers ex_stuck ! 1 = StopSendingExit \<and>
   (\<forall>ls. Looping ls \<notin> set (loops (msys ex_stuck))) \<and>
   callers (the (mexec_event ex_stuck (0, Tick 5))) ! 1 = StopSendingExit"
proof -
  have r: "mreach 2 True 100 1000 0 ex_stuck"
    using run_mevents_mreach [OF _ mreach.init] run_ex_two_stops by blast
  have "mexec_event ex_stuck (0, Tick 5) = Some (the (mexec_event ex_stuck (0, Tick 5)))"
    using run_ex_two_stops by simp
  then have st: "mstep ex_stuck (the (mexec_event ex_stuck (0, Tick 5)))"
    by (rule mexec_event_mstep)
  have h: "1 < length (callers ex_stuck)" "callers ex_stuck ! 1 = StopSendingExit"
    "\<forall>ls. Looping ls \<notin> set (loops (msys ex_stuck))"
    using run_ex_two_stops by simp_all
  from stale_stop_stays_blocked [OF st h] r st h show ?thesis by simp
qed

text \<open>C29. And the stale \<open>Stop\<close> stops the next loop. Caller 1 calls \<open>Stop\<close>
  while the loop runs, after caller 0 has; caller 0's \<open>Stop\<close> takes the exit
  signal and returns, leaving caller 1 blocked on \<open>exitSignal\<close> with no
  goroutine left. Caller 0 then calls \<open>Start\<close>, and the loop it launches
  receives caller 1's exit signal, clears the flag and answers it: both
  callers return, the last call caller 0 made was \<open>Start\<close>, and the observer
  is stopped.\<close>

theorem stale_stop_stops_next_loop:
  "\<exists>m1 m2 :: nat msystem.
     run_mevents (msys_init 2 True 100 1000 0) ex_two_stops = Some m1 \<and>
     callers m1 = [Idle, StopSendingExit] \<and> loops (msys m1) = [] \<and> \<not> isRunning (obs (msys m1)) \<and>
     run_mevents m1 [(0, CallStart), (0, CallStart), (0, Enter), (1, ExitLoop), (1, ClearFlag),
                     (1, StopDone)] = Some m2 \<and>
     mreach 2 True 100 1000 0 m2 \<and> callers m2 = [Idle, Idle] \<and> loops (msys m2) = [] \<and>
     \<not> isRunning (obs (msys m2))"
proof -
  obtain m2 where run: "run_mevents ex_stuck [(0, CallStart), (0, CallStart), (0, Enter), (1, ExitLoop),
                                              (1, ClearFlag), (1, StopDone)] = Some m2"
    and m2: "callers m2 = [Idle, Idle]" "loops (msys m2) = []" "\<not> isRunning (obs (msys m2))"
    using run_ex_two_stops by (simp add: mrun_simps)
  have "mreach 2 True 100 1000 0 m2"
    using run_mevents_mreach [OF run] run_mevents_mreach [OF _ mreach.init] run_ex_two_stops by blast
  with run m2 run_ex_two_stops show ?thesis by blast
qed

text \<open>The other side of the window between the exit signal (line 63) and the
  clearing of the flag (line 72): a \<open>Start\<close> of the other caller there still
  sees the flag set, logs that the observer is already running and returns;
  the \<open>Stop\<close> then completes, and with both calls returned no goroutine
  runs.\<close>

definition ex_start_during_exit :: "(nat \<times> nat event) list" where
  "ex_start_during_exit = [(0, CallStart), (0, CallStart), (0, Enter), (0, CallStop), (0, ExitLoop),
                           (1, CallStart), (0, ClearFlag), (0, StopDone)]"

theorem start_during_exit_is_lost:
  "\<exists>m :: nat msystem. run_mevents (msys_init 2 True 100 1000 0) ex_start_during_exit = Some m \<and>
     mreach 2 True 100 1000 0 m \<and> callers m = [Idle, Idle] \<and> loops (msys m) = [] \<and>
     \<not> isRunning (obs (msys m)) \<and>
     logs (effects (msys m)) = [WarnExitSignal, InfoBuffer [], WarnAlreadyRunning]"
proof -
  have "\<exists>m. run_mevents (msys_init 2 True 100 1000 0) ex_start_during_exit = Some m \<and>
          callers m = [Idle, Idle] \<and> loops (msys m) = [] \<and> \<not> isRunning (obs (msys m)) \<and>
          logs (effects (msys m)) = [WarnExitSignal, InfoBuffer [], WarnAlreadyRunning]"
    by (simp add: ex_start_during_exit_def mrun_simps report_def log_line_def no_outputs_def
                  ObserverBuffer_empty_def StatsReceiver_Send_def)
  then show ?thesis using run_mevents_mreach [OF _ mreach.init] by blast
qed

definition ex_double_start :: "(nat \<times> nat event) list" where
  "ex_double_start = [(0, CallStart), (1, CallStart), (0, CallStart), (0, Enter), (1, CallStart)]"

text \<open>C31. \<open>Start\<close> checks the flag (line 50) and sets it (line 54) in two
  statements. Two callers calling \<open>Start\<close> together can both read the flag
  clear before either sets it; both launch a goroutine, both calls return,
  and two loops run at once, both draining the channels and flushing. When
  caller 0 stops one of them, that goroutine clears the flag (line 72) while
  the other loop still runs; a \<open>Stop\<close> by caller 1 then reads the flag clear
  and returns at once, leaving that loop running.\<close>

theorem concurrent_starts_leave_loop_running:
  "\<exists>ma m1 m2 :: nat msystem.
     run_mevents (msys_init 2 True 100 1000 0) ex_double_start = Some ma \<and> mstep ma m1 \<and>
     mreach 2 True 100 1000 0 m1 \<and> callers m1 = [Idle, Idle] \<and> isRunning (obs (msys m1)) \<and>
     (\<exists>ls1 ls2. loops (msys m1) = [Looping ls1, Looping ls2]) \<and>
     mstep\<^sup>*\<^sup>* m1 m2 \<and> callers m2 = [Idle, Idle] \<and> \<not> isRunning (obs (msys m2)) \<and>
     (\<exists>ls. loops (msys m2) = [Looping ls]) \<and> mexec_event m2 (1, CallStop) = Some m2"
proof -
  obtain ma ls0 where run: "run_mevents (msys_init 2 True 100 1000 0) ex_double_start = Some ma"
    and a: "callers ma = [Idle, Idle]" "loops (msys ma) = [Looping ls0, Spawned]"
      "isRunning (obs (msys ma))" "caller (msys ma) = Idle"
    by (simp add: ex_double_start_def mrun_simps)
  have ra: "mreach 2 True 100 1000 0 ma" by (rule run_mevents_mreach [OF run mreach.init])
  define m1 where "m1 = unfocus 0 ma ((focus 0 ma)\<lparr>loops := (loops (msys ma))[1 :=
                     Looping (loop_start (obs (msys ma)) (clock (msys ma)))]\<rparr>)"
  have st1: "mstep ma m1" unfolding m1_def by (rule mstep_loop_enter) (simp_all add: a)
  define ls1 where "ls1 = loop_start (obs (msys ma)) (clock (msys ma))"
  have b: "callers m1 = [Idle, Idle]" "loops (msys m1) = [Looping ls0, Looping ls1]"
    "isRunning (obs (msys m1))" "caller (msys m1) = Idle"
    by (simp_all add: m1_def ls1_def unfocus_def focus_def a)
  have r1: "mreach 2 True 100 1000 0 m1" by (rule mreach.trans [OF ra st1])
  define m1b where "m1b = unfocus 0 m1 (Stop (focus 0 m1))"
  have stop: "mexec_event m1 (0, CallStop) = Some m1b" by (simp add: m1b_def b focus_def)
  have c: "callers m1b = [StopSendingExit, Idle]" "loops (msys m1b) = [Looping ls0, Looping ls1]"
    "isRunning (obs (msys m1b))"
    by (simp_all add: m1b_def b focus_def unfocus_def Stop_def)
  define m1c where "m1c = unfocus 0 m1b ((focus 0 m1b)\<lparr>loops := (loops (msys m1b))[0 := Exiting],
      caller := StopAwaitingDone,
      effects := report (statsClient (obs (msys m1b))) (buffer ls0) (log_line WarnExitSignal (effects (msys m1b)))\<rparr>)"
  have st2: "mstep m1b m1c" unfolding m1c_def by (rule mstep_loop_exit) (simp_all add: c)
  have d: "callers m1c = [StopAwaitingDone, Idle]" "loops (msys m1c) = [Exiting, Looping ls1]"
    by (simp_all add: m1c_def c focus_def unfocus_def)
  define m1d where "m1d = unfocus 0 m1c ((focus 0 m1c)\<lparr>obs := (obs (msys m1c))\<lparr>isRunning := False\<rparr>,
                                                      loops := (loops (msys m1c))[0 := SendingStopDone]\<rparr>)"
  have st3: "mstep m1c m1d" unfolding m1d_def by (rule mstep_loop_clear) (simp_all add: d)
  have e: "callers m1d = [StopAwaitingDone, Idle]" "loops (msys m1d) = [SendingStopDone, Looping ls1]"
    "\<not> isRunning (obs (msys m1d))"
    by (simp_all add: m1d_def d focus_def unfocus_def)
  define m2 where "m2 = unfocus 0 m1d ((focus 0 m1d)\<lparr>loops := remove_nth 0 (loops (msys m1d)), caller := Idle\<rparr>)"
  have st4: "mstep m1d m2" unfolding m2_def by (rule mstep_stop_done) (simp_all add: e)
  have f: "callers m2 = [Idle, Idle]" "loops (msys m2) = [Looping ls1]" "\<not> isRunning (obs (msys m2))"
    "caller (msys m2) = Idle"
    by (simp_all add: m2_def e focus_def unfocus_def remove_nth_def)
  have "mstep\<^sup>*\<^sup>* m1 m2"
    using mexec_event_mstep [OF stop] st2 st3 st4 by (meson converse_rtranclp_into_rtranclp rtranclp.rtrancl_refl)
  moreover have "mexec_event m2 (1, CallStop) = Some m2"
    using f unfocus_focus_Idle [of m2 1] by (simp add: Stop_def focus_def)
  ultimately show ?thesis using run st1 r1 b f by blast
qed

end
