(* ===== verification/Observer_Liveness.thy ===== *)
theory Observer_Liveness
  imports Observer_System
begin

text \<open>
  The heartbeat of the specification (section 8) for the whole system: from
  every reachable state whose goroutine is in its loop, the run in which no
  result arrives, no lifecycle call is made, and only the clock and the idle
  timer (\<open>time.After(o.timeout)\<close>, line 78) fire reaches a flush no later than
  one report interval plus one idle timeout after the current instant. It
  rests on two invariants: the deadline is at most one interval ahead of the
  clock (\<open>deadline_inv\<close>), and the pending timer at most one timeout ahead
  (\<open>timer_inv\<close>, below).
\<close>

section \<open>The timer\<close>

definition timer_inv :: "'r system \<Rightarrow> bool" where
  "timer_inv s \<longleftrightarrow> (\<forall>ls. Looping ls \<in> set (loops s) \<longrightarrow> timer ls \<le> clock s + timeout (obs s))"

lemma loop_iteration_timer:
  "loop_iteration ob c now ls e = Some (ob', Continue ls', e') \<Longrightarrow> timer ls' = now + timeout ob"
  using loop_iteration_deadline_check by blast

lemma step_timer_inv:
  assumes "step s s'" and "lifecycle_inv s" and "timer_inv s"
  shows "timer_inv s'"
  using assms(1,2)
proof (cases rule: step_single_cases)
  case (loop_select ls c ob' ls' e')
  with loop_iteration_timer [OF loop_select(2)] loop_iteration_config [OF loop_select(2)]
  show ?thesis by (simp add: timer_inv_def)
next
  case start
  with assms(3) show ?thesis by (auto simp: timer_inv_def Start_def)
qed (use assms(3) in \<open>auto simp: timer_inv_def producer_simps loop_start_def\<close>)

lemma reach_timer_inv: "reach sc t ri t0 s \<Longrightarrow> timer_inv s"
  by (erule reach_inv_rule) (simp add: timer_inv_def sys_init_def, blast intro: step_timer_inv)

section \<open>Idle wakeups of the system\<close>

text \<open>One wakeup at instant \<open>w\<close>, at or after both the clock and the timer: the
  clock advances to \<open>w\<close> and the goroutine takes its timer case.\<close>

lemma wakeup_steps:
  assumes "loops s = [Looping ls]" and "timer ls \<le> w" and "clock s \<le> w"
  obtains ls' e' where
    "next_select (obs s) w ls (log_line (DebugTimedOut (timeout (obs s))) (effects s)) = (Continue ls', e')"
    "step\<^sup>*\<^sup>* s (s\<lparr>clock := w, loops := [Looping ls'], effects := e'\<rparr>)"
proof -
  obtain it e' where ns:
    "next_select (obs s) w ls (log_line (DebugTimedOut (timeout (obs s))) (effects s)) = (it, e')"
    by fastforce
  then obtain ls' where it: "it = Continue ls'" by (rule next_select_Continue)
  let ?s1 = "s\<lparr>clock := w\<rparr>"
  have tick: "step\<^sup>*\<^sup>* s ?s1"
  proof (cases "clock s < w")
    case True
    with step.tick [of "w - clock s" s] show ?thesis by simp
  next
    case False
    with assms(3) have "s\<lparr>clock := w\<rparr> = s" by (cases s) simp
    then show ?thesis by simp
  qed
  have "loop_iteration (obs ?s1) TimeAfter (clock ?s1) ls (effects ?s1) = Some (obs s, Continue ls', e')"
    using assms(2) ns it by simp
  with step.loop_select [of 0 ?s1 ls TimeAfter "obs s" ls' e'] assms(1)
  have "step ?s1 (s\<lparr>clock := w, loops := [Looping ls'], effects := e'\<rparr>)" by simp
  with tick have "step\<^sup>*\<^sup>* s (s\<lparr>clock := w, loops := [Looping ls'], effects := e'\<rparr>)" by simp
  with ns it show ?thesis by (intro that) simp_all
qed

lemma flushed_of_timeouts [simp]: "flushed_of (replicate k (DebugTimedOut d)) = []"
  by (induction k) simp_all

text \<open>Wakeups every \<open>timeout\<close> from \<open>w\<close> on: the first one strictly after the
  deadline flushes the buffer, which the wakeups before it leave alone; the
  log shows one timeout line per wakeup, then the flush.\<close>

definition idle_flushed :: "'r system \<Rightarrow> 'r loop_state \<Rightarrow> 'r system \<Rightarrow> bool" where
  "idle_flushed s ls s' \<longleftrightarrow>
     (\<exists>k ls'. loops s' = [Looping ls'] \<and> buffer ls' = [] \<and>
        reportTime ls' = clock s' + reportInterval (obs s) \<and>
        logs (effects s') = logs (effects s) @ replicate k (DebugTimedOut (timeout (obs s))) @
                              [DebugTimedOut (timeout (obs s)), InfoBuffer (buffer ls)]) \<and>
     obs s' = obs s \<and> caller s' = caller s \<and> pushed s' = pushed s"

lemma idle_flushed_flushed:
  "idle_flushed s ls s' \<Longrightarrow> flushed (effects s') = flushed (effects s) @ [buffer ls]"
  by (auto simp: idle_flushed_def)

lemma idle_wakeups_flush:
  assumes "loops s = [Looping ls]" and "0 < timeout (obs s)"
    and "timer ls \<le> w" and "clock s \<le> w" and "reportTime ls < w + int n * timeout (obs s)"
  shows "\<exists>s'. step\<^sup>*\<^sup>* s s' \<and> idle_flushed s ls s' \<and>
              clock s' \<le> max w (reportTime ls + timeout (obs s))"
  using assms
proof (induction n arbitrary: s ls w)
  case 0
  from wakeup_steps [OF "0.prems"(1,3,4)] obtain ls' e' where
    ns: "next_select (obs s) w ls (log_line (DebugTimedOut (timeout (obs s))) (effects s)) = (Continue ls', e')"
    and st: "step\<^sup>*\<^sup>* s (s\<lparr>clock := w, loops := [Looping ls'], effects := e'\<rparr>)" .
  from ns "0.prems"(5) have "idle_flushed s ls (s\<lparr>clock := w, loops := [Looping ls'], effects := e'\<rparr>)"
    unfolding idle_flushed_def by (auto elim!: next_select_Continue intro: exI [of _ 0])
  with st show ?case by (intro exI [of _ "s\<lparr>clock := w, loops := [Looping ls'], effects := e'\<rparr>"]) simp
next
  case (Suc n)
  from wakeup_steps [OF Suc.prems(1,3,4)] obtain ls' e' where
    ns: "next_select (obs s) w ls (log_line (DebugTimedOut (timeout (obs s))) (effects s)) = (Continue ls', e')"
    and st: "step\<^sup>*\<^sup>* s (s\<lparr>clock := w, loops := [Looping ls'], effects := e'\<rparr>)" .
  let ?s1 = "s\<lparr>clock := w, loops := [Looping ls'], effects := e'\<rparr>"
  show ?case
  proof (cases "reportTime ls < w")
    case True
    with ns have "idle_flushed s ls ?s1"
      unfolding idle_flushed_def by (auto elim!: next_select_Continue intro: exI [of _ 0])
    with st show ?thesis by (intro exI [of _ ?s1]) simp
  next
    case False
    from ns False have ls': "timer ls' = w + timeout (obs s)" "reportTime ls' = reportTime ls"
      "buffer ls' = buffer ls" "logs e' = logs (effects s) @ [DebugTimedOut (timeout (obs s))]"
      by (auto elim: next_select_Continue)
    have "reportTime ls' < (w + timeout (obs s)) + int n * timeout (obs s)"
      using Suc.prems(5) ls' by (simp add: algebra_simps)
    with Suc.IH [of ?s1 ls' "w + timeout (obs s)"] Suc.prems(2) ls'
    obtain s' where st': "step\<^sup>*\<^sup>* ?s1 s'" and fl: "idle_flushed ?s1 ls' s'"
      and ck: "clock s' \<le> max (w + timeout (obs s)) (reportTime ls + timeout (obs s))"
      by auto
    from fl ls' have "idle_flushed s ls s'"
      unfolding idle_flushed_def by (auto intro: exI [of _ "Suc k" for k])
    with st st' ck False show ?thesis by (intro exI [of _ s']) auto
  qed
qed

lemma int_mult_pos_ge: "0 < (t :: int) \<Longrightarrow> int n \<le> int n * t"
  by (simp add: mult_le_cancel_left1)

section \<open>A non-positive idle timeout\<close>

text \<open>The heartbeat needs a positive idle timeout. \<open>time.After(d)\<close> with
  \<open>d \<le> 0\<close> fires at once, so with such a timeout the timer case is ready at
  every instant: before the deadline the loop can take it any number of
  times without the clock moving, each time logging a timeout line and
  sending nothing (a busy loop).\<close>

lemma nonpositive_timeout_spins:
  assumes "timeout ob \<le> 0" and "timer ls \<le> now" and "now \<le> reportTime ls"
  shows "\<exists>ls'. loop_run ob (replicate n (TimeAfter, now)) ls out =
                Some (ob, Continue ls', out\<lparr>logs := logs out @ replicate n (DebugTimedOut (timeout ob))\<rparr>) \<and>
               buffer ls' = buffer ls \<and> reportTime ls' = reportTime ls"
  using assms(2,3)
proof (induction n arbitrary: ls out)
  case 0
  then show ?case by simp
next
  case (Suc n)
  obtain it out' where ns: "next_select ob now ls (log_line (DebugTimedOut (timeout ob)) out) = (it, out')"
    by fastforce
  then obtain ls1 where it: "it = Continue ls1" and ls1: "timer ls1 = now + timeout ob"
    "reportTime ls1 = reportTime ls" "buffer ls1 = buffer ls"
    "out' = log_line (DebugTimedOut (timeout ob)) out"
    using Suc.prems(2) by (auto elim: next_select_Continue)
  have "timer ls1 \<le> now" using ls1(1) assms(1) by simp
  with Suc.IH [of ls1 out'] Suc.prems(2) ls1 obtain ls' where
    run: "loop_run ob (replicate n (TimeAfter, now)) ls1 out' =
          Some (ob, Continue ls', out'\<lparr>logs := logs out' @ replicate n (DebugTimedOut (timeout ob))\<rparr>)"
    and b: "buffer ls' = buffer ls1" "reportTime ls' = reportTime ls1"
    by auto
  have "loop_run ob (replicate (Suc n) (TimeAfter, now)) ls out =
        loop_run ob (replicate n (TimeAfter, now)) ls1 out'"
    using Suc.prems(1) ns it by simp
  with run b ls1 show ?case by (simp add: log_line_def replicate_append_same [symmetric])
qed

lemma nonpositive_timeout_spins_witness:
  "timeout (New True 0 1000 :: nat Observer) \<le> 0 \<and>
   timer (loop_start (New True 0 1000 :: nat Observer) 0) \<le> 0 \<and>
   0 \<le> reportTime (loop_start (New True 0 1000 :: nat Observer) 0) \<and>
   (\<exists>ls'. loop_run (New True 0 1000) (replicate 3 (TimeAfter, 0)) (loop_start (New True 0 1000) 0)
            no_outputs =
          Some (New True 0 1000 :: nat Observer, Continue ls',
                no_outputs\<lparr>logs := [DebugTimedOut 0, DebugTimedOut 0, DebugTimedOut 0]\<rparr>))"
proof -
  have h: "timeout (New True 0 1000 :: nat Observer) \<le> 0"
    "timer (loop_start (New True 0 1000 :: nat Observer) 0) \<le> 0"
    "0 \<le> reportTime (loop_start (New True 0 1000 :: nat Observer) 0)"
    by (simp_all add: New_def loop_start_def)
  from nonpositive_timeout_spins [OF h, of 3 no_outputs] h show ?thesis
    by (auto simp: New_def no_outputs_def numeral_eq_Suc)
qed

section \<open>The heartbeat\<close>

text \<open>C30. Heartbeat of the system: with a positive idle timeout and a
  non-negative report interval, from every reachable state whose goroutine is
  in its loop, the run in which only the clock and the idle timer fire
  reaches, within one report interval plus one idle timeout, a state where the
  loop still runs with an empty buffer and a deadline one interval ahead,
  having logged only idle timeouts and one flush of the goroutine's buffer,
  with no change to the observer, the caller or the producers.\<close>

theorem reach_heartbeat:
  assumes "reach sc t ri t0 s" and "0 < t" and "0 \<le> ri" and "loops s = [Looping ls]"
  shows "\<exists>s' k ls'. step\<^sup>*\<^sup>* s s' \<and> clock s' \<le> clock s + ri + t \<and>
           loops s' = [Looping ls'] \<and> buffer ls' = [] \<and> reportTime ls' = clock s' + ri \<and>
           logs (effects s') = logs (effects s) @ replicate k (DebugTimedOut t) @
                                 [DebugTimedOut t, InfoBuffer (buffer ls)] \<and>
           obs s' = obs s \<and> caller s' = caller s \<and> pushed s' = pushed s"
proof -
  have cfg: "timeout (obs s) = t" "reportInterval (obs s) = ri"
    using reach_config_inv [OF assms(1)] by (simp_all add: config_inv_def)
  have rt: "reportTime ls \<le> clock s + ri"
    using reach_deadline_inv [OF assms(1)] assms(4) cfg by (simp add: deadline_inv_def)
  have tm: "timer ls \<le> clock s + t"
    using reach_timer_inv [OF assms(1)] assms(4) cfg by (simp add: timer_inv_def)
  define w where "w = clock s + t"
  define n where "n = nat (reportTime ls - w + 1)"
  have "reportTime ls - w + 1 \<le> int n" by (simp add: n_def)
  with int_mult_pos_ge [OF assms(2), of n] have "reportTime ls < w + int n * t" by linarith
  with idle_wakeups_flush [of s ls w n] assms(2,4) cfg tm
  obtain s' where "step\<^sup>*\<^sup>* s s'" "idle_flushed s ls s'" "clock s' \<le> max w (reportTime ls + t)"
    by (auto simp: w_def)
  with rt assms(3) cfg show ?thesis unfolding idle_flushed_def by (auto simp: w_def)
qed

theorem reach_heartbeat_witness:
  "reach True 100 1000 0 ex_looping \<and> (0 :: int) < 100 \<and> (0 :: int) \<le> 1000 \<and>
   loops ex_looping = [Looping (loop_start (obs ex_started) 0)] \<and>
   (\<exists>s' k. step\<^sup>*\<^sup>* ex_looping s' \<and> clock s' \<le> 1100 \<and>
      logs (effects s') = replicate k (DebugTimedOut 100) @ [DebugTimedOut 100, InfoBuffer []])"
proof -
  have l: "loops ex_looping = [Looping (loop_start (obs ex_started) 0)]"
    by (simp add: ex_looping_def)
  have e: "logs (effects ex_looping) = []" "clock ex_looping = 0"
    "buffer (loop_start (obs ex_started) 0) = ([] :: (nat \<times> bool) list)"
    by (simp_all add: ex_defs ObserverBuffer_empty_def)
  from reach_heartbeat [OF reach_ex_looping _ _ l] reach_ex_looping l e show ?thesis by fastforce
qed

end
