(* ===== verification/Observer_Shutdown.thy ===== *)
theory Observer_Shutdown
  imports Observer_Drain
begin

text \<open>
  Shutdown after a drain. The specification's first testable property asks
  that after any pushes followed by \<open>Stop\<close>, the sink has received every
  pushed result, with its tag, exactly once. \<open>Stop_strands_queued_result\<close>
  (C3) shows a schedule of Go's \<open>select\<close> in which it fails. This theory shows
  the schedule in which it holds: the goroutine works off the backlog (the
  drain of \<open>Observer_Drain\<close>, taken as steps of the system at the current
  instant) and only then takes the exit signal of \<open>Stop\<close>.
\<close>

definition drain_start :: "'r system \<Rightarrow> 'r loop_state \<Rightarrow> 'r drain_state" where
  "drain_start s ls = \<lparr>dr_obs = obs s, dr_loop = ls, dr_out = effects s, dr_now = clock s\<rparr>"

definition after_drain :: "'r system \<Rightarrow> 'r drain_state \<Rightarrow> 'r system" where
  "after_drain s st = s\<lparr>obs := dr_obs st, loops := [Looping (dr_loop st)], effects := dr_out st\<rparr>"

lemma after_drain_start: "loops s = [Looping ls] \<Longrightarrow> after_drain s (drain_start s ls) = s"
  by (cases s) (simp add: after_drain_def drain_start_def)

lemma drain_step_system:
  assumes "0 < backlog (dr_obs st)" and "dr_now st = clock s"
  shows "step (after_drain s st) (after_drain s (drain_step 0 st)) \<and> dr_now (drain_step 0 st) = clock s"
proof -
  obtain ob' ls' out' where it:
    "loop_iteration (dr_obs st) (ready_recv (dr_obs st)) (dr_now st) (dr_loop st) (dr_out st) =
     Some (ob', Continue ls', out')"
    using loop_iteration_ready_recv [OF assms(1)] by blast
  have "step (after_drain s st) ((after_drain s st)\<lparr>obs := ob', loops := [Looping ls'], effects := out'\<rparr>)"
    using step.loop_select [of 0 "after_drain s st" "dr_loop st" "ready_recv (dr_obs st)" ob' ls' out']
      it assms(2) by (simp add: after_drain_def)
  with it assms(2) show ?thesis by (simp add: drain_step_def after_drain_def)
qed

text \<open>The drain, as steps of the system: no tick, no producer, no lifecycle
  call, only the goroutine taking queued results.\<close>

lemma drain_steps:
  assumes "loops s = [Looping ls]" and "drain 0 (drain_start s ls) = Some st'"
  shows "step\<^sup>*\<^sup>* s (after_drain s st')"
proof -
  have "dr_now st' = clock s \<and> step\<^sup>*\<^sup>* s (after_drain s st')"
  proof (rule while_option_rule [OF _ assms(2) [unfolded drain_def]])
    show "dr_now (drain_start s ls) = clock s \<and> step\<^sup>*\<^sup>* s (after_drain s (drain_start s ls))"
      using after_drain_start [OF assms(1)] by (simp add: drain_start_def)
  next
    fix st
    assume "dr_now st = clock s \<and> step\<^sup>*\<^sup>* s (after_drain s st)" and "0 < backlog (dr_obs st)"
    with drain_step_system [of st s] show
      "dr_now (drain_step 0 st) = clock s \<and> step\<^sup>*\<^sup>* s (after_drain s (drain_step 0 st))"
      by (auto intro: rtranclp.rtrancl_into_rtrancl)
  qed
  then show ?thesis by simp
qed

text \<open>C32. Every pushed result can reach the sink exactly once: from every
  reachable state with a sink, no lifecycle call pending and the goroutine
  in its loop, the schedule that works off both channels before taking the
  exit signal makes \<open>Stop\<close> return with both channels empty, and the
  buffers the sink has received then hold, per tag and in order, exactly the
  results the producers pushed.\<close>

theorem stop_after_drain_delivers_all:
  assumes "reach True t ri t0 s" and "caller s = Idle" and "loops s = [Looping ls]"
  shows "\<exists>s'. step\<^sup>*\<^sup>* s s' \<and> caller s' = Idle \<and> loops s' = [] \<and> \<not> isRunning (obs s') \<and>
              pushed s' = pushed s \<and> targetWriteChan (obs s') = [] \<and>
              targetWriteOversizedChan (obs s') = [] \<and>
              (\<forall>ov. tagged ov (concat (sent (effects s'))) = pushed s ov)"
proof -
  obtain st' where dr: "drain 0 (drain_start s ls) = Some st'"
    using drain_terminates by blast
  let ?s1 = "after_drain s st'"
  have st1: "step\<^sup>*\<^sup>* s ?s1" by (rule drain_steps [OF assms(3) dr])
  have r1: "reach True t ri t0 ?s1" by (rule reach_steps [OF st1 assms(1)])
  have empty: "backlog (obs ?s1) = 0" using drain_result [OF dr] by (simp add: after_drain_def)
  have l1: "loops ?s1 = [Looping (dr_loop st')]" "caller ?s1 = Idle"
    using assms(2) by (simp_all add: after_drain_def)
  then have run1: "isRunning (obs ?s1)"
    using reach_lifecycle_inv [OF r1] by (simp add: lifecycle_inv_def)
  have st2: "step ?s1 (Stop ?s1)" by (rule step.stop [OF l1(2)])
  have l2: "loops (Stop ?s1) = [Looping (dr_loop st')]" "caller (Stop ?s1) = StopSendingExit"
    using l1 run1 by (simp_all add: Stop_def)
  obtain s' where st3: "step\<^sup>*\<^sup>* (Stop ?s1) s'" and s': "caller s' = Idle" "loops s' = []"
    "\<not> isRunning (obs s')" "pushed s' = pushed (Stop ?s1)"
    "\<forall>ov. chan_of ov (obs s') = chan_of ov (obs (Stop ?s1))"
    using stop_from_looping [OF l2] by blast
  have steps: "step\<^sup>*\<^sup>* s s'" using st1 st2 st3 by (meson rtranclp.rtrancl_into_rtrancl rtranclp_trans)
  have r': "reach True t ri t0 s'" by (rule reach_steps [OF steps assms(1)])
  have chans: "chan_of ov (obs s') = []" for ov
    using s'(5) empty by (simp add: chan_of_def backlog_zero_iff Stop_def)
  have p: "pushed s' = pushed s" using s'(4) by (simp add: after_drain_def Stop_def)
  have "tagged ov (concat (sent (effects s'))) = pushed s ov" for ov
    using reach_accounting_inv [OF r'] reach_sink_inv [OF r'] reach_config_inv [OF r'] chans p s'(2)
    by (simp add: accounting_inv_def accounted_def sink_inv_def config_inv_def)
  moreover have "targetWriteChan (obs s') = []" "targetWriteOversizedChan (obs s') = []"
    using chans [of False] chans [of True] by (simp_all add: chan_of_def)
  ultimately show ?thesis using steps s'(1-3) p by blast
qed

theorem stop_after_drain_delivers_all_witness:
  "reach True 100 1000 0 ex_written \<and> caller ex_written = Idle \<and>
   loops ex_written = [Looping (loop_start (obs ex_started) 0)] \<and>
   (\<exists>s'. step\<^sup>*\<^sup>* ex_written s' \<and> caller s' = Idle \<and> targetWriteChan (obs s') = [] \<and>
         tagged False (concat (sent (effects s'))) = [7] \<and>
         tagged True (concat (sent (effects s'))) = [])"
proof -
  have h: "caller ex_written = Idle" "loops ex_written = [Looping (loop_start (obs ex_started) 0)]"
    "pushed ex_written False = [7]" "pushed ex_written True = []"
    by (simp_all add: ex_defs ex_written_def)
  from stop_after_drain_delivers_all [OF reach_ex_written h(1,2)] reach_ex_written h
  show ?thesis by fastforce
qed

end
