(* ===== verification/Spec2Isabelle.thy ===== *)
theory Spec2Isabelle
  imports Observer_Trace Observer_Spec Observer_Alias Observer_Schedule Observer_Drain Observer_Callers
    Observer_Liveness Observer_Shutdown
begin

text \<open>
  \<^bold>\<open>A verification development of the telemetry observer of
  \<open>src/internal/observer/observer.go\<close>.\<close>

  \<^bold>\<open>The program.\<close> One Go file. An \<open>Observer\<close> owns two buffered channels of
  capacity 1000 (\<open>targetWriteChan\<close> for normal write results,
  \<open>targetWriteOversizedChan\<close> for oversized ones), two unbuffered channels
  (\<open>exitSignal\<close>, \<open>stopDone\<close>), an optional stats sink, an idle \<open>timeout\<close>, a
  \<open>reportInterval\<close> and an \<open>isRunning\<close> flag. Producers push results with
  \<open>TargetWrite\<close> and \<open>TargetWriteOversized\<close> and block when a channel is full.
  \<open>Start\<close> launches one goroutine that loops over a four-way \<open>select\<close> (exit
  signal, normal result, oversized result, \<open>time.After(timeout)\<close>), merges
  results into its local \<open>ObserverBuffer\<close>, and after each case but the exit
  flushes the buffer (log line and \<open>Send\<close> to the sink) when the clock is past
  \<open>reportTime\<close>, then resets the buffer and sets \<open>reportTime\<close> to
  now + \<open>reportInterval\<close>. \<open>Stop\<close>, when running, sends the exit signal and waits
  on \<open>stopDone\<close>; the goroutine does a final flush, clears the flag and answers.

  \<^bold>\<open>The theories.\<close>
  \<^item> \<open>Observer_Prelude\<close>: time as integer nanoseconds, the \<open>observer_simps\<close>
    collection, \<open>tagged\<close> (the results of one tag in a tagged list),
    \<open>remove_nth\<close>, and the counts of a filtered list after an update or a
    removal by index, with their lemmas.
  \<^item> \<open>Observer_Buffer\<close>: the collaborators outside \<open>src/\<close>, from the
    specification: \<open>ObserverBuffer\<close> as the sequence of merged (result, oversized)
    pairs with \<open>ObserverBuffer_Append\<close>; the log lines (\<open>log_entry\<close>); the
    sink's \<open>StatsReceiver_Send\<close>; \<open>report\<close>, the flush the loop performs at
    lines 66--70 and 82--86 (log the summary, send if the sink is not nil).
  \<^item> \<open>Observer_State\<close>: the \<open>Observer\<close> record (lines 19--30), \<open>New\<close>
    (lines 34--46), buffered channels as FIFO lists with \<open>chan_send\<close> (\<open>None\<close>:
    the sender blocks) and \<open>chan_recv\<close> (\<open>None\<close>: not ready), and
    \<open>TargetWrite\<close>/\<open>TargetWriteOversized\<close> (lines 108--116).
  \<^item> \<open>Observer_Loop\<close>: the goroutine body (lines 56--93). \<open>loop_state\<close> holds
    \<open>reportTime\<close>, \<open>buffer\<close> and the fire time of the pending \<open>time.After\<close>;
    \<open>loop_start\<close> is its entry; \<open>loop_iteration\<close> is one pass of the \<open>for\<close> loop
    for the \<open>select\<close> case the scheduler picks (\<open>None\<close> when that case is not
    ready); \<open>check_report\<close> and \<open>next_select\<close> are the deadline check and the
    re-armed timer; \<open>loop_run\<close> runs a schedule; \<open>idle_run\<close> is a quiet
    period. Lemmas: per-iteration and per-run conservation of results
    (\<open>loop_iteration_accounted\<close>, C11), the exit case (C12), the deadline check
    (C13), deadline monotonicity (C14), the heartbeat and its exact timing in
    quiet periods (C15, C16), and time- rather than count-triggered flushing
    (C19).
  \<^item> \<open>Observer_System\<close>: the interleaving of producers, one serialized
    lifecycle caller (\<open>Start\<close>, \<open>Stop\<close>), the goroutines and the clock as the
    inductive relation \<open>step\<close>; \<open>reach\<close> is reachability from \<open>sys_init\<close>
    (a fresh \<open>New\<close>). Goroutines are a list (\<open>Start\<close> appends one); the caller
    is idle or blocked in one of the two channel operations of \<open>Stop\<close>; the
    unbuffered channels are rendezvous steps. \<open>pushed\<close> is a ghost history
    of accepted results. A goroutine is \<open>Spawned\<close>, \<open>Looping\<close> in the
    \<open>for\<close> loop, \<open>Exiting\<close> (it took the exit signal and made the final
    flush, lines 63--70) or \<open>SendingStopDone\<close> (it cleared the flag, line 72,
    and waits to send on \<open>stopDone\<close>, line 92): the exit is the three steps
    \<open>loop_exit\<close>, \<open>loop_clear\<close> and \<open>stop_done\<close>, as in the code, not one.
    \<open>step_single_cases\<close> is the case analysis every
    invariant proof uses. Invariants by rule induction: one goroutine at most
    and the flag in step with it (C4), results accounted for in order (C1), the
    sink fed exactly the flushed buffers (C7), channel bounds (C8), the
    deadline within one interval of the clock (C10). Operations: \<open>Stop\<close>
    returns after exactly one final flush (C2), only through the \<open>stopDone\<close>
    handshake (C20), and, from every state with a result queued, strands it
    in its channel (C3); repeated \<open>Start\<close> (C5), \<open>Stop\<close> when stopped (C6).
    Backpressure
    (C9): a full channel blocks its producer, only the loop's receive of the
    channel's head changes it (\<open>step_targetWriteChan\<close>), and a goroutine in its
    loop can always take that step (\<open>loop_recv_step\<close>), which releases the
    producer.
  \<^item> \<open>Observer_Trace\<close>: an executable scheduler, \<open>exec_event\<close> over a datatype
    of events (tick, push, lifecycle call, goroutine step) and \<open>run_events\<close>
    over a list of them; every event it performs is a step of \<open>step\<close>
    (\<open>exec_event_step\<close>), so concrete runs evaluate by \<open>simp\<close> and end in
    reachable states.
  \<^item> \<open>Observer_Spec\<close>: the contract as an abstract machine, an aggregator of
    accepted results per queue and reported buffers whose report step may only
    continue each queue's reported sequence with accepted results;
    \<open>agg_of\<close> abstracts a system state; every reachable state refines a
    reachable aggregator state (C18).
  \<^item> \<open>Observer_Alias\<close>: the loop again, with the escaping variable \<open>buffer\<close>
    in an explicit store and \<open>Send(&buffer)\<close> passing its address; it agrees
    with \<open>loop_iteration\<close> on everything but the sink's pointers
    (\<open>loop_iteration_ref_agrees\<close>), and a result merged after a flush shows
    through the pointer that flush sent (C23).
  \<^item> \<open>Observer_Schedule\<close>: \<open>deadline_flushes\<close>, the instants at which the
    deadline check of a run flushes. Every deadline flush is past the
    deadline the run started with, and two of them are more than one report
    interval apart: the floating schedule never drifts backwards (C24).
    \<open>system_deadline_flushes\<close> does the same for a run of events of the whole
    system. The property then holds across ticks, pushes, stops and restarts,
    from a fresh observer on (C33).
  \<^item> \<open>Observer_Drain\<close>: the loop working off a backlog, as a \<open>while_option\<close>
    whose body is \<open>loop_iteration\<close> on a ready receive case, with the clock
    advancing by a fixed duration per iteration; \<open>push_all\<close> is a sequence of
    producer calls; it blocks exactly when a channel would go over its
    capacity (C34). The drain terminates on every input, by the measure
    \<open>backlog\<close> (C25). Results pushed within the free capacity come out of it per
    channel in push order, after those already queued (C26). A run of receive
    cases takes one queued result per iteration, so it is no longer than the
    backlog (\<open>loop_run_recv_bounded\<close>).
  \<^item> \<open>Observer_Callers\<close>: any number of concurrent lifecycle callers, at the
    grain of the statements that touch shared state. \<open>Start\<close> is two steps,
    the check of the flag (line 50, \<open>start_check\<close>) and its setting with the
    launch of the goroutine (lines 54--56, \<open>start_launch\<close>); every other step
    of caller \<open>j\<close> is a \<open>step\<close> of the one-caller system seen from \<open>j\<close>
    (\<open>focus\<close>/\<open>unfocus\<close>). \<open>mexec_event\<close> and \<open>run_mevents\<close> are its
    executable scheduler. With two callers:
    \<^item> two \<open>Start\<close>s can both pass the check before either sets the flag, and
      launch two loops that run at once; once one is stopped the flag is
      clear while the other still runs, and a \<open>Stop\<close> returns at once without
      stopping it (C31);
    \<^item> a \<open>Start\<close> during another caller's \<open>Stop\<close>, after the goroutine has
      cleared the flag and before it answers on \<open>stopDone\<close>, launches a second
      goroutine (C27); one before the flag is cleared only logs that the
      observer is running, and both calls return with no goroutine left
      (\<open>start_during_exit_is_lost\<close>);
    \<^item> a \<open>Stop\<close> that read a stale \<open>isRunning\<close> blocks on \<open>exitSignal\<close>
      while no loop runs (C28);
    \<^item> that stale \<open>Stop\<close> then stops the loop of a later \<open>Start\<close> (C29).
  \<^item> \<open>Observer_Liveness\<close>: the heartbeat for the whole system. A third invariant,
    \<open>timer_inv\<close>, keeps the pending timer within one idle timeout of the clock.
    With it and \<open>deadline_inv\<close>, the run in which only the clock and the idle
    timer fire flushes the goroutine's buffer within one report interval
    plus one idle timeout, from every reachable state with a running loop
    (C30). The positive timeout is needed: with \<open>timeout \<le> 0\<close> the timer case
    is ready at every instant and the loop can spin at one instant, logging a
    timeout line per pass (\<open>nonpositive_timeout_spins\<close>).
  \<^item> \<open>Observer_Shutdown\<close>: the schedule in which \<open>Stop\<close> keeps the
    specification's promise. The goroutine works off both channels (the drain
    of \<open>Observer_Drain\<close>, run as steps of the system) and only then takes the
    exit signal. \<open>Stop\<close> then returns with both channels empty, and the sink
    holds every pushed result exactly once, per tag in push order (C32). C3
    is the schedule in which this fails.
  \<^item> This theory: the specification's own scenario run through the program
    (C17), and a restart picking up a result \<open>Stop\<close> stranded (C22).

  \<^bold>\<open>Modelling choices.\<close> Instants and durations are \<open>int\<close> nanoseconds of one
  monotone clock (Go's durations are signed; overflow of \<open>time.Time.Add\<close> is not
  modelled). A loop iteration reads the clock once and is atomic (the exit
  apart, whose final flush and clearing of the flag are separate steps): it touches
  only the goroutine's locals, the channel it receives from, the flag and the
  outputs, and the interleaving of producers between the \<open>select\<close> and the
  deadline check does not change what it computes. Go's \<open>select\<close> picks at
  random among ready cases; the model lets it pick any ready case, and lets
  the timer case fire once its instant has come even when a channel is ready:
  an over-approximation, so every safety property holds of the real program,
  and the stranding run of C3 uses only a choice Go's uniform \<open>select\<close> makes
  with probability one half. In \<open>Observer_System\<close> lifecycle calls are
  serialized, as the specification requires, and \<open>Start\<close> is one step:
  nothing that runs beside a serialized caller reads or writes the flag
  between its check and its set. \<open>Observer_Callers\<close> drops that assumption
  and splits \<open>Start\<close> at line 50. Its interleaving is sequentially consistent, so the data race on
  \<open>isRunning\<close> appears there as a stale read. Reordered memory accesses are not
  modelled. No fuel is needed: every operation is a terminating function. The
  loop is an unbounded sequence of steps; the liveness of \<open>Stop\<close> (C2) is the
  existence of the steps that complete it (exit, clearing, handshake).
  Draining a backlog is a \<open>while_option\<close> proved to return (C25). The sink is synchronous: \<open>sent\<close>
  records the buffer's value at the time of \<open>Send\<close>.

  \<^bold>\<open>Not modelled.\<close> The rendering \<open>buffer.String()\<close> (a log line keeps the
  buffer it renders), logrus formatting and levels, the aggregates inside
  \<open>ObserverBuffer\<close>, the sink's wire protocol. The address of \<open>buffer\<close>
  handed to \<open>Send\<close> is modelled only in \<open>Observer_Alias\<close>; elsewhere the sink
  records the buffer's value at the call. These collaborators live outside
  \<open>src/\<close> (\<open>models\<close>, \<open>statsreceiveriface\<close>, logrus) and the specification
  declares their structure out of scope, so they are modelled only as far as
  the observer depends on them, and stay partly modelled. Within
  \<open>observer.go\<close> only the package clause and imports are left unmapped.

  \<^bold>\<open>What the model shows against the specification.\<close> \<open>Stop\<close> does not
  flush everything enqueued before it is called: the exit case may win the
  \<open>select\<close> over queued results, which then stay in their channel (C3). The
  deadline check is strict and runs only when the loop wakes, so the
  scenario's report comes at 1100ms, not 1000ms (C17), and in quiet periods
  heartbeat flushes are one interval plus up to one idle timeout apart (C30, C15,
  C16). The deadline never moves backwards only for a non-negative interval
  (C14), and the heartbeat needs a positive idle timeout, without which the
  loop busy-waits (\<open>nonpositive_timeout_spins\<close>). \<open>Send\<close> receives the address of the loop's buffer variable, which the
  loop overwrites after the call, so the sink is given an alias rather than a
  snapshot (C23). While no goroutine runs, nothing drains the channels, and
  producers block at capacity until the next \<open>Start\<close> (C21). The flag
  \<open>isRunning\<close> is cleared (line 72) before the goroutine answers on
  \<open>stopDone\<close> (line 92) and is read unsynchronized. So with two lifecycle
  callers two goroutines can exist at once (C27). \<open>Start\<close>'s check and set
  are two statements, so two concurrent \<open>Start\<close>s can launch two loops, and
  after one is stopped the flag is clear while the other runs, out of reach
  of \<open>Stop\<close> (C31). A second \<open>Stop\<close> can block until the next \<open>Start\<close> and then stop
  that new loop (C28, C29). A \<open>Start\<close> in the window between the exit signal
  and line 72 is a no-op that reports the observer as running, and the
  concurrent \<open>Stop\<close> leaves it stopped (\<open>start_during_exit_is_lost\<close>).
\<close>

section \<open>The specification's scenario\<close>

text \<open>
  The scenario of the specification (section 8): report interval 1s, idle
  timeout 100ms, three normal results pushed at 0, 200 and 300ms and one
  oversized result at 150ms, the loop taking each as it arrives and waking on
  its timer in between. Times are in milliseconds here.
\<close>

definition scenario_events :: "nat event list" where
  "scenario_events =
     [CallStart, Enter, Push 1, Select RecvTargetWrite,
      Tick 100, Select TimeAfter,
      Tick 50, PushOversized 2, Select RecvTargetWriteOversized,
      Tick 50, Push 3, Select RecvTargetWrite,
      Tick 100, Push 4, Select RecvTargetWrite] @
     concat (replicate 7 [Tick 100, Select TimeAfter])"

lemmas scenario_simps = scenario_events_def numeral_eq_Suc sys_init_def New_def Start_def
  loop_start_def next_select_def check_report_def TargetWrite_def TargetWriteOversized_def
  chan_send_def ObserverBuffer_Append_def ObserverBuffer_empty_def result_chan_capacity_def
  report_def log_line_def StatsReceiver_Send_def no_outputs_def

text \<open>C17. In the scenario nothing is sent up to and including t=1000ms (the
  deadline check is strict), and the wakeup at t=1100ms sends exactly one
  buffer holding the three normal results and the oversized one, in arrival
  order and correctly tagged, leaving the buffer empty; the run is a run of
  the program.\<close>

theorem scenario_report:
  "\<exists>s1 s2. run_events (sys_init True 100 1000 0) scenario_events = Some s1 \<and>
     clock s1 = 1000 \<and> sent (effects s1) = [] \<and>
     run_events s1 [Tick 100, Select TimeAfter] = Some s2 \<and> clock s2 = 1100 \<and>
     sent (effects s2) = [[(1, False), (2, True), (3, False), (4, False)]] \<and>
     concat (map goroutine_buffer (loops s2)) = [] \<and>
     reach True 100 1000 0 s2"
proof -
  obtain s1 where r1: "run_events (sys_init True 100 1000 0) scenario_events = Some s1"
    and c1: "clock s1 = 1000" and n1: "sent (effects s1) = []"
    and r2: "\<exists>s2. run_events s1 [Tick 100, Select TimeAfter] = Some s2 \<and> clock s2 = 1100 \<and>
               sent (effects s2) = [[(1, False), (2, True), (3, False), (4, False)]] \<and>
               concat (map goroutine_buffer (loops s2)) = []"
    by (simp add: scenario_simps)
  from r2 obtain s2 where r2': "run_events s1 [Tick 100, Select TimeAfter] = Some s2"
    and rest: "clock s2 = 1100" "sent (effects s2) = [[(1, False), (2, True), (3, False), (4, False)]]"
      "concat (map goroutine_buffer (loops s2)) = []"
    by blast
  have "run_events (sys_init True 100 1000 0) (scenario_events @ [Tick 100, Select TimeAfter]) = Some s2"
    using r1 r2' by (simp add: run_events_append)
  then have "reach True 100 1000 0 s2" by (rule run_events_reach)
  with r1 c1 n1 r2' rest show ?thesis by blast
qed

section \<open>Stop, then Start again\<close>

text \<open>C22. A result stranded by \<open>Stop\<close> is not lost for good: after \<open>Stop\<close> has
  returned with the result still queued (the exit won the \<open>select\<close>, the final
  flush sent an empty buffer), a new \<open>Start\<close> launches a goroutine that takes
  it from the channel into its buffer.\<close>

theorem restart_recovers_stranded:
  "\<exists>s. run_events (sys_init True 100 1000 0) [CallStart, Enter, Push (7::nat), CallStop, ExitLoop, ClearFlag, StopDone]
         = Some s \<and>
       caller s = Idle \<and> \<not> isRunning (obs s) \<and> sent (effects s) = [[]] \<and>
       targetWriteChan (obs s) = [7] \<and>
       (\<exists>s'. run_events s [CallStart, Enter, Select RecvTargetWrite] = Some s' \<and>
             concat (map goroutine_buffer (loops s')) = [(7, False)] \<and>
             targetWriteChan (obs s') = [] \<and> reach True 100 1000 0 s')"
proof -
  let ?es = "[CallStart, Enter, Push (7::nat), CallStop, ExitLoop, ClearFlag, StopDone]"
  let ?fs = "[CallStart, Enter, Select RecvTargetWrite] :: nat event list"
  obtain s where r: "run_events (sys_init True 100 1000 0) ?es = Some s"
    and props: "caller s = Idle" "\<not> isRunning (obs s)" "sent (effects s) = [[]]"
      "targetWriteChan (obs s) = [7]"
    and more: "\<exists>s'. run_events s ?fs = Some s' \<and>
             concat (map goroutine_buffer (loops s')) = [(7, False)] \<and> targetWriteChan (obs s') = []"
    by (simp add: scenario_simps Stop_def)
  from more obtain s' where r': "run_events s ?fs = Some s'"
    and p': "concat (map goroutine_buffer (loops s')) = [(7, False)]" "targetWriteChan (obs s') = []"
    by blast
  have "run_events (sys_init True 100 1000 0) (?es @ ?fs) = Some s'"
    by (simp only: run_events_append r r' option.case)
  then have "reach True 100 1000 0 s'" by (rule run_events_reach)
  with r props r' p' show ?thesis by blast
qed

end
